theory Spec2Isabelle
  imports Complex_Main
begin

section \<open>JavaScript values\<close>

text \<open>
  The program is \<^verbatim>\<open>src/server.js\<close>. A JavaScript string is modelled as a \<^typ>\<open>string\<close>:
  one \<^typ>\<open>char\<close> per UTF-16 code unit, for strings whose code units are all below 256.

  A JavaScript number is an IEEE 754 double. \<open>Fin r\<close> is the finite double whose exact
  value is the rational \<open>r\<close>; the two zeros are identified (the program never divides,
  and prints both as \<^verbatim>\<open>0\<close>). The values of JSON are the values the program meets:
  an object is the list of its own properties, the first binding of a key counting.
\<close>

datatype jsnum = NaN | PosInf | NegInf | Fin rat

datatype jsval =
    Undefined
  | Null
  | Bool bool
  | Num jsnum
  | Str string
  | Arr "jsval list"
  | Obj "(string \<times> jsval) list"

subsection \<open>Rounding to a double\<close>

fun bit_length :: "nat \<Rightarrow> nat" where
  "bit_length n = (if n = 0 then 0 else Suc (bit_length (n div 2)))"

declare bit_length.simps [simp del]

definition pow2 :: "int \<Rightarrow> rat" where
  "pow2 e = (if 0 \<le> e then 2 ^ nat e else 1 / 2 ^ nat (- e))"

text \<open>The binary exponent of a positive rational: \<open>pow2 (ilog2 x) \<le> x < pow2 (ilog2 x + 1)\<close>.\<close>

definition ilog2 :: "rat \<Rightarrow> int" where
  "ilog2 x = (if 1 \<le> x then int (bit_length (nat \<lfloor>x\<rfloor>)) - 1
              else - int (bit_length (nat (\<lceil>1 / x\<rceil> - 1))))"

definition round_half_even :: "rat \<Rightarrow> int" where
  "round_half_even x =
     (let f = \<lfloor>x\<rfloor>; d = x - of_int f
      in if d < 1 / 2 then f else if 1 / 2 < d then f + 1 else if even f then f else f + 1)"

text \<open>
  Round to nearest, ties to even, with a 53-bit significand, the least exponent -1074 of
  the subnormals, and overflow to infinity from \<open>2 ^ 1024\<close>.
\<close>

definition round_double :: "rat \<Rightarrow> jsnum" where
  "round_double x =
     (if x = 0 then Fin 0
      else let a = \<bar>x\<bar>;
               q = max (ilog2 a - 52) (- 1074);
               v = of_int (round_half_even (a / pow2 q)) * pow2 q
           in if 2 ^ 1024 \<le> v then (if 0 < x then PosInf else NegInf)
              else Fin (if 0 < x then v else - v))"

subsection \<open>Arithmetic on doubles\<close>

fun dneg :: "jsnum \<Rightarrow> jsnum" where
  "dneg NaN = NaN"
| "dneg PosInf = NegInf"
| "dneg NegInf = PosInf"
| "dneg (Fin r) = Fin (- r)"

fun dadd :: "jsnum \<Rightarrow> jsnum \<Rightarrow> jsnum" where
  "dadd NaN _ = NaN"
| "dadd _ NaN = NaN"
| "dadd PosInf NegInf = NaN"
| "dadd NegInf PosInf = NaN"
| "dadd PosInf _ = PosInf"
| "dadd _ PosInf = PosInf"
| "dadd NegInf _ = NegInf"
| "dadd _ NegInf = NegInf"
| "dadd (Fin a) (Fin b) = round_double (a + b)"

definition dsub :: "jsnum \<Rightarrow> jsnum \<Rightarrow> jsnum" where
  "dsub a b = dadd a (dneg b)"

subsection \<open>\<^verbatim>\<open>Number(string)\<close>\<close>

text \<open>
  \<^verbatim>\<open>Number\<close> applied to a string parses a \<^verbatim>\<open>StringNumericLiteral\<close>: optional white space
  around nothing (the value 0), a signed decimal literal with optional fraction and
  exponent, \<^verbatim>\<open>Infinity\<close>, or an unsigned binary, octal or hexadecimal integer literal;
  any other text is \<^verbatim>\<open>NaN\<close>. The value is rounded to the nearest double (also for a
  literal of more than 20 significant digits, where the standard leaves the last place to
  the implementation). White space is the white space and the line terminators of the
  language that are below 256.
\<close>

definition is_ws :: "char \<Rightarrow> bool" where
  "is_ws c = ((of_char c :: nat) \<in> {9, 10, 11, 12, 13, 32, 160})"

definition trim :: "string \<Rightarrow> string" where
  "trim s = rev (dropWhile is_ws (rev (dropWhile is_ws s)))"

definition digit_of :: "char \<Rightarrow> nat option" where
  "digit_of c =
     (let n = (of_char c :: nat)
      in if 48 \<le> n \<and> n \<le> 57 then Some (n - 48)
         else if 97 \<le> n \<and> n \<le> 102 then Some (n - 87)
         else if 65 \<le> n \<and> n \<le> 70 then Some (n - 55)
         else None)"

definition is_digit_in :: "nat \<Rightarrow> char \<Rightarrow> bool" where
  "is_digit_in b c = (case digit_of c of None \<Rightarrow> False | Some d \<Rightarrow> d < b)"

definition radix_value :: "nat \<Rightarrow> string \<Rightarrow> int" where
  "radix_value b s = foldl (\<lambda>a c. int b * a + int (the (digit_of c))) 0 s"

abbreviation is_digit :: "char \<Rightarrow> bool" where
  "is_digit \<equiv> is_digit_in 10"

abbreviation dec :: "string \<Rightarrow> int" where
  "dec \<equiv> radix_value 10"

definition non_decimal :: "string \<Rightarrow> int option" where
  "non_decimal t =
     (case t of
        z # x # ds \<Rightarrow>
          (let b = (if x = CHR ''b'' \<or> x = CHR ''B'' then 2
                    else if x = CHR ''o'' \<or> x = CHR ''O'' then 8
                    else if x = CHR ''x'' \<or> x = CHR ''X'' then 16 else 0)
           in if z = CHR ''0'' \<and> b \<noteq> 0 \<and> ds \<noteq> [] \<and> list_all (is_digit_in b) ds
              then Some (radix_value b ds) else None)
      | _ \<Rightarrow> None)"

definition pow10 :: "int \<Rightarrow> rat" where
  "pow10 e = (if 0 \<le> e then 10 ^ nat e else 1 / 10 ^ nat (- e))"

definition exponent_part :: "string \<Rightarrow> int option" where
  "exponent_part r =
     (case r of
        [] \<Rightarrow> Some 0
      | e # r1 \<Rightarrow>
          if e = CHR ''e'' \<or> e = CHR ''E'' then
            (let neg = (r1 \<noteq> [] \<and> hd r1 = CHR ''-'');
                 ds = (if r1 \<noteq> [] \<and> (hd r1 = CHR ''-'' \<or> hd r1 = CHR ''+'') then tl r1 else r1)
             in if ds \<noteq> [] \<and> list_all is_digit ds
                then Some (if neg then - dec ds else dec ds) else None)
          else None)"

datatype mv = MVInf | MVFin rat

definition unsigned_decimal :: "string \<Rightarrow> mv option" where
  "unsigned_decimal t =
     (if t = ''Infinity'' then Some MVInf
      else let ip = takeWhile is_digit t;
               r1 = dropWhile is_digit t;
               dot = (r1 \<noteq> [] \<and> hd r1 = CHR ''.'');
               fp = (if dot then takeWhile is_digit (tl r1) else []);
               r2 = (if dot then dropWhile is_digit (tl r1) else r1)
           in if ip = [] \<and> fp = [] then None
              else case exponent_part r2 of
                     None \<Rightarrow> None
                   | Some ex \<Rightarrow>
                       Some (MVFin ((of_int (dec ip) + of_int (dec fp) / 10 ^ length fp) * pow10 ex)))"

definition Number :: "string \<Rightarrow> jsnum" where
  "Number s =
     (let t = trim s
      in if t = [] then Fin 0
         else case non_decimal t of
                Some n \<Rightarrow> round_double (of_int n)
              | None \<Rightarrow>
                  (let neg = (hd t = CHR ''-'');
                       u = (if hd t = CHR ''-'' \<or> hd t = CHR ''+'' then tl t else t)
                   in case unsigned_decimal u of
                        None \<Rightarrow> NaN
                      | Some MVInf \<Rightarrow> (if neg then NegInf else PosInf)
                      | Some (MVFin r) \<Rightarrow> round_double (if neg then - r else r)))"

section \<open>The identifier list\<close>

text \<open>
  Lines 25 to 36. The program ends in two ways before any entry is processed:
  \<^verbatim>\<open>process.exit(1)\<close> after the message about the identifier format, and the
  \<^verbatim>\<open>RangeError\<close> that \<^verbatim>\<open>Array.from\<close> throws, uncaught, when the array is too long.
\<close>

datatype startup_error = MissingEnv | InvalidIdFormat | UncaughtRangeError

fun split :: "char \<Rightarrow> string \<Rightarrow> string list" where
  "split sep [] = [[]]"
| "split sep (c # cs) =
     (if c = sep then [] # split sep cs
      else case split sep cs of
             t # ts \<Rightarrow> (c # t) # ts
           | [] \<Rightarrow> [[c]])"

text \<open>\<^verbatim>\<open>ToLength\<close>: truncate, then clamp to \<open>0 .. 2 ^ 53 - 1\<close>; \<^verbatim>\<open>NaN\<close> is 0.\<close>

fun to_length :: "jsnum \<Rightarrow> int" where
  "to_length NaN = 0"
| "to_length PosInf = 2 ^ 53 - 1"
| "to_length NegInf = 0"
| "to_length (Fin r) = (if r \<le> 0 then 0 else min \<lfloor>r\<rfloor> (2 ^ 53 - 1))"

text \<open>
  \<^verbatim>\<open>Array.from({ length: l }, (_, i) => f(i))\<close>. It builds its result with the \<^verbatim>\<open>Array\<close>
  constructor, which throws a \<^verbatim>\<open>RangeError\<close> for a length above \<open>2 ^ 32 - 1\<close>. An engine
  throws it earlier, above the longest array it builds (V8 from about \<open>2 ^ 27\<close> elements,
  far below the bound of the standard). That length depends on the engine and is the
  parameter \<open>max_length\<close> of the model.
\<close>

definition array_from :: "nat \<Rightarrow> jsnum \<Rightarrow> (jsnum \<Rightarrow> jsnum) \<Rightarrow> startup_error + jsnum list" where
  "array_from max_length l f =
     (let len = to_length l
      in if 2 ^ 32 - 1 < len \<or> int max_length < len then Inl UncaughtRangeError
         else Inr (map (\<lambda>i. f (Fin (of_int i))) [0 .. len - 1]))"

text \<open>
  Lines 28 to 36. An argument with a \<^verbatim>\<open>-\<close> splits into at least two tokens
  (\<open>split_two\<close> below), so the destructuring of line 29 always finds \<^verbatim>\<open>min\<close> and \<^verbatim>\<open>max\<close>.
\<close>

definition idList :: "nat \<Rightarrow> string \<Rightarrow> startup_error + jsnum list" where
  "idList max_length args =
     (if CHR ''-'' \<in> set args then
        (case map Number (split CHR ''-'' args) of
           mn # mx # _ \<Rightarrow> array_from max_length (dadd (dsub mx mn) (Fin 1)) (\<lambda>i. dadd mn i)
         | _ \<Rightarrow> Inr [])
      else if CHR '','' \<in> set args then Inr (map Number (split CHR '','' args))
      else Inl InvalidIdFormat)"

text \<open>The argument that lists the given tokens, with the separator between them.\<close>

fun join :: "char \<Rightarrow> string list \<Rightarrow> string" where
  "join sep [] = []"
| "join sep [t] = t"
| "join sep (t # u # ts) = t @ sep # join sep (u # ts)"

text \<open>The doubles that are integers.\<close>

fun is_integer :: "jsnum \<Rightarrow> bool" where
  "is_integer (Fin r) = (r = of_int \<lfloor>r\<rfloor>)"
| "is_integer _ = False"

section \<open>Effects\<close>

text \<open>
  A function with effects returns its result, or the exception it throws, together with
  the events it caused, in order: the queries sent to the source table, the requests
  posted to the completion endpoint, the rows passed to the destination table's insert,
  and the lines written to the console.
\<close>

text \<open>
  The exceptions: an error of \<^verbatim>\<open>axios\<close> has its message and, when the server answered,
  the data of the response.
\<close>

datatype exn = TypeError | SyntaxError | AxiosError string "jsval option"

record source_row =
  row_id :: jsnum
  question :: "string option"
  answer :: "string option"
  category_display_name :: "string option"

record dest_row =
  ins_category_display_name :: "string option"
  title :: jsval
  description :: jsval
  read_more_titles :: jsval
  read_more_texts :: jsval

text \<open>
  The lines of the console, in the order of the source lines that write them:
  19, 34, 38, 42, 95, 96, 100, 102, 116, 121, 126, 133, 146 and 150.
\<close>

datatype log_line =
    MissingEnvVars
  | InvalidIdFormatMsg
  | ProcessingIds "jsnum list"
  | InvalidInputText jsval
  | JsonParseError
  | RawJsonString string
  | OpenRouterError exn
  | FullApiError jsval
  | ErrorFetching jsnum string
  | NoDataFound jsnum
  | ProcessingEntry jsnum
  | NoValidContent jsnum
  | ErrorInserting jsnum string
  | Saved jsnum

datatype event = Query jsnum | Post string | Insert dest_row | Log log_line

type_synonym 'a io = "(exn + 'a) \<times> event list"

definition ret :: "'a \<Rightarrow> 'a io" where
  "ret x = (Inr x, [])"

definition throw :: "exn \<Rightarrow> 'a io" where
  "throw e = (Inl e, [])"

definition emit :: "event \<Rightarrow> unit io" where
  "emit ev = (Inr (), [ev])"

definition lift :: "exn + 'a \<Rightarrow> 'a io" where
  "lift r = (r, [])"

definition bind :: "'a io \<Rightarrow> ('a \<Rightarrow> 'b io) \<Rightarrow> 'b io" where
  "bind m f =
     (case m of
        (Inl e, t) \<Rightarrow> (Inl e, t)
      | (Inr x, t) \<Rightarrow> (case f x of (r, t') \<Rightarrow> (r, t @ t')))"

definition try_catch :: "'a io \<Rightarrow> (exn \<Rightarrow> 'a io) \<Rightarrow> 'a io" where
  "try_catch m h =
     (case m of
        (Inl e, t) \<Rightarrow> (case h e of (r, t') \<Rightarrow> (r, t @ t'))
      | (Inr x, t) \<Rightarrow> (Inr x, t))"

definition bindE :: "exn + 'a \<Rightarrow> ('a \<Rightarrow> exn + 'b) \<Rightarrow> exn + 'b" where
  "bindE m f = (case m of Inl e \<Rightarrow> Inl e | Inr x \<Rightarrow> f x)"

subsection \<open>The collaborators\<close>

text \<open>
  The data store, the completion endpoint and \<^verbatim>\<open>JSON.parse\<close> are outside the program.
  \<open>select\<close> answers the query for one identifier with the \<^verbatim>\<open>data\<close> and \<^verbatim>\<open>error\<close> of the
  client's reply (\<open>None\<close> is \<^verbatim>\<open>null\<close>; an error is given by its message). \<open>post\<close>
  answers a request, given by the content of its user message (the rest of the request
  is constant), with \<^verbatim>\<open>response.data\<close> or the error that \<^verbatim>\<open>axios.post\<close> throws.
  \<open>JSON_parse\<close> is \<open>None\<close> where \<^verbatim>\<open>JSON.parse\<close> throws its \<^verbatim>\<open>SyntaxError\<close>.
  \<open>insert_row\<close> answers an insert with the message of its error, if any.
  The three projected columns are text columns: each holds a string or \<^verbatim>\<open>null\<close>.
  Each collaborator answers as a function of the request alone, as a stub does: what the
  program did before reaches a later step only through the program itself.
\<close>

record env =
  select :: "jsnum \<Rightarrow> (source_row list option \<times> string option)"
  post :: "string \<Rightarrow> exn + jsval"
  JSON_parse :: "string \<Rightarrow> jsval option"
  insert_row :: "dest_row \<Rightarrow> string option"

subsection \<open>Operators of the language\<close>

fun truthy :: "jsval \<Rightarrow> bool" where
  "truthy Undefined = False"
| "truthy Null = False"
| "truthy (Bool b) = b"
| "truthy (Num n) = (n \<noteq> NaN \<and> n \<noteq> Fin 0)"
| "truthy (Str s) = (s \<noteq> [])"
| "truthy (Arr _) = True"
| "truthy (Obj _) = True"

fun typeof :: "jsval \<Rightarrow> string" where
  "typeof Undefined = ''undefined''"
| "typeof Null = ''object''"
| "typeof (Bool _) = ''boolean''"
| "typeof (Num _) = ''number''"
| "typeof (Str _) = ''string''"
| "typeof (Arr _) = ''object''"
| "typeof (Obj _) = ''object''"

text \<open>An array index as a property key: the decimal digits of a number, without leading zeros.\<close>

definition array_index :: "string \<Rightarrow> nat option" where
  "array_index k =
     (if k \<noteq> [] \<and> list_all is_digit k \<and> (k = ''0'' \<or> hd k \<noteq> CHR ''0'') then Some (nat (dec k))
      else None)"

text \<open>
  Reading a property, \<^verbatim>\<open>v[k]\<close>: a \<^verbatim>\<open>TypeError\<close> on \<^verbatim>\<open>undefined\<close> and \<^verbatim>\<open>null\<close>, the own
  properties of objects, the elements and length of arrays and strings. Inherited
  properties are not modelled: the program reads the keys \<^verbatim>\<open>choices\<close>, \<^verbatim>\<open>0\<close>, \<^verbatim>\<open>message\<close>,
  \<^verbatim>\<open>content\<close>, \<^verbatim>\<open>main_title\<close>, \<^verbatim>\<open>main_description\<close>, \<^verbatim>\<open>read_more_titles\<close> and
  \<^verbatim>\<open>read_more_descriptions\<close>, and no prototype has one of them.
\<close>

fun get :: "jsval \<Rightarrow> string \<Rightarrow> exn + jsval" where
  "get Undefined k = Inl TypeError"
| "get Null k = Inl TypeError"
| "get (Bool _) k = Inr Undefined"
| "get (Num _) k = Inr Undefined"
| "get (Str s) k =
     (if k = ''length'' then Inr (Num (Fin (of_nat (length s))))
      else case array_index k of
             Some i \<Rightarrow> Inr (if i < length s then Str [s ! i] else Undefined)
           | None \<Rightarrow> Inr Undefined)"
| "get (Arr xs) k =
     (if k = ''length'' then Inr (Num (Fin (of_nat (length xs))))
      else case array_index k of
             Some i \<Rightarrow> Inr (if i < length xs then xs ! i else Undefined)
           | None \<Rightarrow> Inr Undefined)"
| "get (Obj kvs) k = Inr (case map_of kvs k of Some v \<Rightarrow> v | None \<Rightarrow> Undefined)"

text \<open>Optional chaining, \<^verbatim>\<open>v?.[k]\<close>.\<close>

definition opt_get :: "jsval \<Rightarrow> string \<Rightarrow> exn + jsval" where
  "opt_get v k = (if v = Undefined \<or> v = Null then Inr Undefined else get v k)"

text \<open>
  \<^verbatim>\<open>text.slice(0, n)\<close> and \<^verbatim>\<open>s.trim()\<close> on a value that has no such method are a
  \<^verbatim>\<open>TypeError\<close>. (An array has a \<^verbatim>\<open>slice\<close> of its own, but only strings reach line 75.)
\<close>

fun slice0 :: "jsval \<Rightarrow> nat \<Rightarrow> exn + string" where
  "slice0 (Str s) n = Inr (take n s)"
| "slice0 _ n = Inl TypeError"

fun str_trim :: "jsval \<Rightarrow> exn + string" where
  "str_trim (Str s) = Inr (trim s)"
| "str_trim _ = Inl TypeError"

text \<open>\<^verbatim>\<open>s.replace(/```json|```/g, "")\<close>: at each position the longer alternative is tried first.\<close>

function remove_fences :: "string \<Rightarrow> string" where
  "remove_fences s =
     (if s = [] then []
      else if take 7 s = ''```json'' then remove_fences (drop 7 s)
      else if take 3 s = ''```'' then remove_fences (drop 3 s)
      else hd s # remove_fences (tl s))"
  by pat_completeness auto
termination
  by (relation "measure length") auto

declare remove_fences.simps [simp del]

section \<open>The content generator\<close>

text \<open>\<^verbatim>\<open>response.data.choices?.[0]?.message?.content\<close>, line 87.\<close>

definition completion_content :: "jsval \<Rightarrow> exn + jsval" where
  "completion_content data =
     bindE (get data ''choices'') (\<lambda>choices.
     bindE (opt_get choices ''0'') (\<lambda>choice.
     bindE (opt_get choice ''message'') (\<lambda>message.
     opt_get message ''content'')))"

text \<open>Lines 88 to 98: trim, strip the code fences, trim, parse; a parse error gives \<^verbatim>\<open>null\<close>.\<close>

definition strip_and_parse :: "env \<Rightarrow> jsval \<Rightarrow> jsval io" where
  "strip_and_parse E aiResponse =
     bind (lift (str_trim aiResponse)) (\<lambda>trimmed.
       let jsonString = trim (remove_fences trimmed)
       in try_catch
            (case JSON_parse E jsonString of
               Some v \<Rightarrow> ret v
             | None \<Rightarrow> throw SyntaxError)
            (\<lambda>parseError.
               bind (emit (Log JsonParseError)) (\<lambda>_.
               bind (emit (Log (RawJsonString jsonString))) (\<lambda>_.
               ret Null))))"

definition axios_post :: "env \<Rightarrow> string \<Rightarrow> jsval io" where
  "axios_post E content = (post E content, [Post content])"

definition processDataWithAI :: "env \<Rightarrow> jsval \<Rightarrow> jsval io" where
  "processDataWithAI E text =
     (if \<not> truthy text \<or> typeof text \<noteq> ''string'' then
        bind (emit (Log (InvalidInputText text))) (\<lambda>_. ret Null)
      else
        try_catch
          (bind (lift (slice0 text 1000)) (\<lambda>content.
           bind (axios_post E content) (\<lambda>data.
           bind (lift (completion_content data)) (\<lambda>c.
           strip_and_parse E (if truthy c then c else Str ''{}'')))))
          (\<lambda>error.
             bind (emit (Log (OpenRouterError error))) (\<lambda>_.
             bind (case error of
                     AxiosError m (Some d) \<Rightarrow> emit (Log (FullApiError d))
                   | _ \<Rightarrow> ret ()) (\<lambda>_.
             ret Null))))"

section \<open>The batch\<close>

text \<open>A value in a template literal: \<^verbatim>\<open>null\<close> is written \<^verbatim>\<open>null\<close>.\<close>

fun template :: "string option \<Rightarrow> string" where
  "template None = ''null''"
| "template (Some s) = s"

text \<open>Line 129: the text sent to the generator.\<close>

definition prompt :: "source_row \<Rightarrow> string" where
  "prompt entry0 =
     template (question entry0) @ '' '' @ template (answer entry0) @ '' ''
       @ template (category_display_name entry0)"

text \<open>Line 132: \<^verbatim>\<open>!blogContent || !blogContent.main_title || !blogContent.main_description\<close>.\<close>

definition invalid_content :: "jsval \<Rightarrow> exn + bool" where
  "invalid_content blogContent =
     (if \<not> truthy blogContent then Inr True
      else bindE (get blogContent ''main_title'') (\<lambda>t.
           if \<not> truthy t then Inr True
           else bindE (get blogContent ''main_description'') (\<lambda>d. Inr (\<not> truthy d))))"

text \<open>Lines 137 to 143: the row passed to \<^verbatim>\<open>insert\<close>.\<close>

definition new_row :: "string option \<Rightarrow> jsval \<Rightarrow> exn + dest_row" where
  "new_row category blogContent =
     bindE (get blogContent ''main_title'') (\<lambda>t.
     bindE (get blogContent ''main_description'') (\<lambda>d.
     bindE (get blogContent ''read_more_titles'') (\<lambda>rt.
     bindE (get blogContent ''read_more_descriptions'') (\<lambda>rd.
     Inr \<lparr>ins_category_display_name = category, title = t, description = d,
          read_more_titles = rt, read_more_texts = rd\<rparr>))))"

text \<open>The body of the loop, lines 110 to 150; each \<^verbatim>\<open>continue\<close> ends it.\<close>

definition processEntry :: "env \<Rightarrow> jsnum \<Rightarrow> unit io" where
  "processEntry E ident =
     bind (emit (Query ident)) (\<lambda>_.
     case select E ident of
       (entry, Some fetchError) \<Rightarrow> emit (Log (ErrorFetching ident fetchError))
     | (None, None) \<Rightarrow> emit (Log (NoDataFound ident))
     | (Some [], None) \<Rightarrow> emit (Log (NoDataFound ident))
     | (Some (entry0 # _), None) \<Rightarrow>
         bind (emit (Log (ProcessingEntry ident))) (\<lambda>_.
         bind (processDataWithAI E (Str (prompt entry0))) (\<lambda>blogContent.
         bind (lift (invalid_content blogContent)) (\<lambda>invalid.
         if invalid then emit (Log (NoValidContent ident))
         else
           bind (lift (new_row (category_display_name entry0) blogContent)) (\<lambda>row.
           bind (emit (Insert row)) (\<lambda>_.
           case insert_row E row of
             Some insertError \<Rightarrow> emit (Log (ErrorInserting ident insertError))
           | None \<Rightarrow> emit (Log (Saved ident))))))))"

text \<open>The loop, lines 108 to 152: an exception that escapes the body ends it.\<close>

fun processEntries :: "env \<Rightarrow> jsnum list \<Rightarrow> unit io" where
  "processEntries E [] = ret ()"
| "processEntries E (ident # rest) = bind (processEntry E ident) (\<lambda>_. processEntries E rest)"

section \<open>The program\<close>

record config =
  SUPABASE_URL :: "string option"
  SUPABASE_ANON_KEY :: "string option"
  OPENROUTER_API_KEY :: "string option"

definition missing :: "string option \<Rightarrow> bool" where
  "missing v = (v = None \<or> v = Some [])"

text \<open>
  The program from line 18 on, given the engine's longest array and the arguments after
  the script's name: the way it
  ends before the batch, or else the outcome of the batch, with the events. Creating the
  client of the data store (line 23) is taken to succeed, the line written at line 38 is
  taken to fit the engine's longest string, and the listener of lines 156 and 157 is left
  out.
\<close>

definition main ::
  "nat \<Rightarrow> config \<Rightarrow> env \<Rightarrow> string list \<Rightarrow> (startup_error + (exn + unit)) \<times> event list" where
  "main max_length C E argv =
     (if missing (SUPABASE_URL C) \<or> missing (SUPABASE_ANON_KEY C) \<or> missing (OPENROUTER_API_KEY C)
      then (Inl MissingEnv, [Log MissingEnvVars])
      else case idList max_length (concat argv) of
             Inl InvalidIdFormat \<Rightarrow> (Inl InvalidIdFormat, [Log InvalidIdFormatMsg])
           | Inl e \<Rightarrow> (Inl e, [])
           | Inr ids \<Rightarrow>
               (case processEntries E ids of
                  (r, t) \<Rightarrow> (Inr r, Log (ProcessingIds ids) # t)))"

section \<open>Reading the events\<close>

fun inserts :: "event list \<Rightarrow> dest_row list" where
  "inserts [] = []"
| "inserts (Insert r # t) = r # inserts t"
| "inserts (_ # t) = inserts t"

fun posts :: "event list \<Rightarrow> string list" where
  "posts [] = []"
| "posts (Post c # t) = c # posts t"
| "posts (_ # t) = posts t"

fun queries :: "event list \<Rightarrow> jsnum list" where
  "queries [] = []"
| "queries (Query i # t) = i # queries t"
| "queries (_ # t) = queries t"

section \<open>Sample collaborators\<close>

text \<open>
  Stubs for the examples: a source table in which the query for identifier 2 fails, the
  query for identifier 4 finds nothing and every other query finds one row; an endpoint
  that answers every request with one completion; a parser that knows four texts; a
  destination table that accepts every row.
\<close>

definition completion :: "string \<Rightarrow> jsval" where
  "completion c = Obj [(''choices'', Arr [Obj [(''message'', Obj [(''content'', Str c)])]])]"

definition dq :: "string \<Rightarrow> string" where
  "dq s = CHR 0x22 # s @ [CHR 0x22]"

definition json_full :: string where
  "json_full =
     ''{'' @ dq ''main_title'' @ '':'' @ dq ''T'' @ '','' @ dq ''main_description'' @ '':'' @ dq ''D''
     @ '','' @ dq ''read_more_titles'' @ '':['' @ dq ''a'' @ '','' @ dq ''b'' @ '','' @ dq ''c'' @ '']''
     @ '','' @ dq ''read_more_descriptions'' @ '':['' @ dq ''x'' @ '','' @ dq ''y'' @ '','' @ dq ''z''
     @ '']}''"

definition json_partial :: string where
  "json_partial =
     ''{'' @ dq ''main_title'' @ '':'' @ dq ''T'' @ '','' @ dq ''main_description'' @ '':'' @ dq ''D''
     @ '','' @ dq ''read_more_descriptions'' @ '':5}''"

definition json_untitled :: string where
  "json_untitled = ''{'' @ dq ''main_title'' @ '':'' @ dq ''T'' @ ''}''"

definition stub_parse :: "string \<Rightarrow> jsval option" where
  "stub_parse s =
     (if s = json_full then
        Some (Obj [(''main_title'', Str ''T''), (''main_description'', Str ''D''),
                   (''read_more_titles'', Arr [Str ''a'', Str ''b'', Str ''c'']),
                   (''read_more_descriptions'', Arr [Str ''x'', Str ''y'', Str ''z''])])
      else if s = json_partial then
        Some (Obj [(''main_title'', Str ''T''), (''main_description'', Str ''D''),
                   (''read_more_descriptions'', Num (Fin 5))])
      else if s = json_untitled then Some (Obj [(''main_title'', Str ''T'')])
      else if s = ''null'' then Some Null
      else None)"

definition stub_row :: "jsnum \<Rightarrow> source_row" where
  "stub_row i =
     \<lparr>row_id = i, question = Some ''Q'', answer = Some ''A'', category_display_name = Some ''Cat''\<rparr>"

definition stub_env :: "string \<Rightarrow> env" where
  "stub_env body =
     \<lparr>select = (\<lambda>i. if i = Fin 2 then (None, Some ''timeout'')
                    else if i = Fin 4 then (Some [], None)
                    else (Some [stub_row i], None)),
      post = (\<lambda>c. Inr (completion body)),
      JSON_parse = stub_parse,
      insert_row = (\<lambda>r. None)\<rparr>"

text \<open>An engine for the examples: its longest array is shorter than that of the engines in use.\<close>

definition stub_max_length :: nat where
  "stub_max_length = 2 ^ 24"

definition stub_config :: config where
  "stub_config =
     \<lparr>SUPABASE_URL = Some ''u'', SUPABASE_ANON_KEY = Some ''k'', OPENROUTER_API_KEY = Some ''o''\<rparr>"


definition full_row :: dest_row where
  "full_row =
     \<lparr>ins_category_display_name = Some ''Cat'', title = Str ''T'', description = Str ''D'',
      read_more_titles = Arr [Str ''a'', Str ''b'', Str ''c''],
      read_more_texts = Arr [Str ''x'', Str ''y'', Str ''z'']\<rparr>"

section \<open>Exact integers\<close>

lemma bit_length_bounds: "0 < n \<Longrightarrow> 2 ^ (bit_length n - 1) \<le> n \<and> n < 2 ^ bit_length n"
proof (induction n rule: bit_length.induct)
  case (1 n)
  show ?case
  proof (cases "n div 2 = 0")
    case True
    with "1.prems" have "n = 1" by (simp add: div_eq_0_iff) 
    then show ?thesis by (simp add: bit_length.simps[of "Suc 0"] bit_length.simps[of 0])
  next
    case False
    then have pos: "0 < n div 2" by simp
    from "1.IH" "1.prems" pos
    have ih: "2 ^ (bit_length (n div 2) - 1) \<le> n div 2" "n div 2 < 2 ^ bit_length (n div 2)"
      by auto
    have bl: "bit_length n = Suc (bit_length (n div 2))"
      using "1.prems" by (subst bit_length.simps) simp
    have bpos: "0 < bit_length (n div 2)"
      using pos by (subst bit_length.simps) simp
    then obtain k where k: "bit_length (n div 2) = Suc k" by (cases "bit_length (n div 2)") auto
    have "2 * 2 ^ k \<le> n" using ih(1) k by (simp; linarith?)
    moreover have "n < 2 * 2 ^ Suc k" using ih(2) k by (simp; linarith?)
    ultimately show ?thesis using bl k by simp
  qed
qed

lemma round_half_even_of_int: "round_half_even (of_int k) = k"
  by (simp add: round_half_even_def)

lemma pow2_neg: "pow2 (- int k) = 1 / 2 ^ k"
  by (simp add: pow2_def)

lemma ilog2_of_nat: "0 < n \<Longrightarrow> ilog2 (of_nat n) = int (bit_length n) - 1"
  by (simp add: ilog2_def)

lemma round_double_of_nat:
  assumes "0 < n" "n \<le> 2 ^ 53"
  shows "round_double (of_nat n) = Fin (of_nat n)"
proof -
  let ?b = "bit_length n"
  from bit_length_bounds[OF assms(1)] have lo: "2 ^ (?b - 1) \<le> n" and hi: "n < 2 ^ ?b" by auto
  have bpos: "0 < ?b" using assms(1) by (subst bit_length.simps) simp
  have "(2::nat) ^ (?b - 1) \<le> 2 ^ 53" using lo assms(2) by linarith
  then have "?b - 1 \<le> 53" by (rule power_le_imp_le_exp[rotated]) simp
  then have b54: "?b \<le> 54" by simp
  have q: "max (ilog2 (of_nat n) - 52) (- 1074) = int ?b - 53"
    using assms(1) by (simp add: ilog2_of_nat)
  have ex: "\<exists>k. (of_nat n :: rat) / pow2 (int ?b - 53) = of_int k"
  proof (cases "?b \<le> 53")
    case True
    then have "int ?b - 53 = - int (53 - ?b)" by simp
    then have "pow2 (int ?b - 53) = 1 / 2 ^ (53 - ?b)" using pow2_neg by metis
    then have "(of_nat n :: rat) / pow2 (int ?b - 53) = of_int (int n * 2 ^ (53 - ?b))" by simp
    then show ?thesis ..
  next
    case False
    with b54 have b: "?b = 54" by simp
    with lo have "2 ^ 53 \<le> n" by simp
    with assms(2) have n: "n = 2 ^ 53" by simp
    have "pow2 (int ?b - 53) = 2" using b by (simp add: pow2_def)
    then have "(of_nat n :: rat) / pow2 (int ?b - 53) = of_int (2 ^ 52)"
      using n by simp
    then show ?thesis ..
  qed
  then obtain k where k: "(of_nat n :: rat) / pow2 (int ?b - 53) = of_int k" ..
  have ppos: "pow2 (int ?b - 53) \<noteq> 0" by (simp add: pow2_def)
  have v: "of_int k * pow2 (int ?b - 53) = (of_nat n :: rat)"
    using k ppos by (simp add: field_simps)
  have small: "\<not> (2 ^ 1024 \<le> (of_nat n :: rat))"
  proof -
    have "(of_nat n :: rat) \<le> of_nat (2 ^ 53)" using assms(2) of_nat_le_iff by blast
    also have "\<dots> < 2 ^ 1024" by simp
    finally show ?thesis by simp
  qed
  show ?thesis
    using assms(1) small
    by (simp add: round_double_def q Let_def k round_half_even_of_int v)
qed

lemma round_double_minus: "round_double (- x) = dneg (round_double x)"
  by (simp add: round_double_def Let_def)

lemma round_double_of_int:
  assumes "\<bar>n\<bar> \<le> 2 ^ 53"
  shows "round_double (of_int n) = Fin (of_int n)"
proof (cases "n = 0")
  case True
  then show ?thesis by (simp add: round_double_def)
next
  case False
  let ?m = "nat \<bar>n\<bar>"
  have m: "0 < ?m" "?m \<le> 2 ^ 53" using False assms by auto
  have r: "round_double (of_nat ?m) = Fin (of_nat ?m)" by (rule round_double_of_nat[OF m])
  show ?thesis
  proof (cases "0 < n")
    case True
    then have "(of_int n :: rat) = of_nat ?m" by simp
    then show ?thesis using r by simp
  next
    case neg: False
    with False have lt: "n < 0" by simp
    then have "(of_int n :: rat) = - of_nat ?m" by simp
    then show ?thesis using r round_double_minus[of "of_nat ?m"] by simp
  qed
qed

section \<open>Decimal tokens\<close>

lemma is_digit_iff: "is_digit c \<longleftrightarrow> 48 \<le> (of_char c :: nat) \<and> (of_char c :: nat) \<le> 57"
  by (auto simp: is_digit_in_def digit_of_def Let_def)

lemma is_digit_not_ws: "is_digit c \<Longrightarrow> \<not> is_ws c"
  by (auto simp: is_digit_iff is_ws_def)

lemma is_digit_neq:
  assumes "is_digit c"
  shows "c \<noteq> CHR ''-''" "c \<noteq> CHR ''+''" "c \<noteq> CHR ''.''" "c \<noteq> CHR '',''" "c \<noteq> CHR ''I''"
    "c \<noteq> CHR ''b''" "c \<noteq> CHR ''B''" "c \<noteq> CHR ''o''" "c \<noteq> CHR ''O''" "c \<noteq> CHR ''x''" "c \<noteq> CHR ''X''"
  using assms by (auto simp: is_digit_iff)

lemma trim_id: "\<forall>c \<in> set s. \<not> is_ws c \<Longrightarrow> trim s = s"
proof -
  assume a: "\<forall>c \<in> set s. \<not> is_ws c"
  have d: "\<And>xs. \<forall>c \<in> set xs. \<not> is_ws c \<Longrightarrow> dropWhile is_ws xs = xs"
    by (simp add: dropWhile_eq_self_iff hd_in_set)
  show ?thesis using a by (simp add: trim_def d)
qed

lemma non_decimal_digits: "list_all is_digit s \<Longrightarrow> non_decimal s = None"
proof (cases s)
  case Nil
  then show ?thesis by (simp add: non_decimal_def)
next
  case (Cons z r)
  assume d: "list_all is_digit s"
  show ?thesis
  proof (cases r)
    case Nil
    with Cons show ?thesis by (simp add: non_decimal_def)
  next
    case (Cons x ds)
    with d \<open>s = z # r\<close> have "is_digit x" by simp
    from is_digit_neq(6-11)[OF this] show ?thesis
      using Cons \<open>s = z # r\<close> by (simp add: non_decimal_def)
  qed
qed

lemma exponent_part_Nil: "exponent_part [] = Some 0"
  by (simp add: exponent_part_def)

lemma unsigned_decimal_digits:
  assumes "s \<noteq> []" "list_all is_digit s"
  shows "unsigned_decimal s = Some (MVFin (of_int (dec s)))"
proof -
  have tw: "takeWhile is_digit s = s" "dropWhile is_digit s = []"
    using assms(2) by (simp_all add: list_all_iff)
  have "CHR ''I'' \<notin> set s" using assms(2) is_digit_neq(5) by (auto simp: list_all_iff)
  then have ni: "s \<noteq> ''Infinity''" by auto
  have p: "pow10 0 = 1" by (simp add: pow10_def)
  have r0: "dec [] = 0" by (simp add: radix_value_def)
  show ?thesis
    unfolding unsigned_decimal_def tw Let_def
    using assms(1) ni by (simp add: exponent_part_Nil p r0)
qed

lemma Number_digits:
  assumes "s \<noteq> []" "list_all is_digit s"
  shows "Number s = round_double (of_int (dec s))"
proof -
  have t: "trim s = s" using assms(2) by (intro trim_id) (auto simp: list_all_iff is_digit_not_ws)
  have h: "hd s \<noteq> CHR ''-''" "hd s \<noteq> CHR ''+''"
    using assms by (cases s; auto dest: is_digit_neq)+
  show ?thesis
    using assms h
    by (simp add: Number_def t Let_def non_decimal_digits unsigned_decimal_digits)
qed

lemma split_no_sep: "c \<notin> set s \<Longrightarrow> split c s = [s]"
  by (induction s) auto

lemma split_append: "c \<notin> set a \<Longrightarrow> split c (a @ c # b) = a # split c b"
  by (induction a) auto

lemma split_two: "c \<in> set s \<Longrightarrow> \<exists>a b r. split c s = a # b # r"
proof -
  assume "c \<in> set s"
  then obtain a b where "s = a @ c # b" "c \<notin> set a" by (meson split_list_first)
  then have "split c s = a # split c b" by (simp add: split_append)
  moreover have "split c b \<noteq> []" by (induction b) (auto split: list.splits)
  ultimately show ?thesis by (cases "split c b") auto
qed

lemma round_double_numeral:
  "(numeral k :: int) \<le> 2 ^ 53 \<Longrightarrow> round_double (numeral k) = Fin (numeral k)"
  "(numeral k :: int) \<le> 2 ^ 53 \<Longrightarrow> round_double (- numeral k) = Fin (- numeral k)"
  "round_double 1 = Fin 1"
  "round_double 0 = Fin 0"
proof -
  show "(numeral k :: int) \<le> 2 ^ 53 \<Longrightarrow> round_double (numeral k) = Fin (numeral k)"
    using round_double_of_int[of "numeral k"] by simp
  show "(numeral k :: int) \<le> 2 ^ 53 \<Longrightarrow> round_double (- numeral k) = Fin (- numeral k)"
    using round_double_of_int[of "- numeral k"] by simp
  show "round_double 1 = Fin 1"
    using round_double_of_int[of 1] by simp
  show "round_double 0 = Fin 0"
    by (simp add: round_double_def)
qed

lemma bit_length_numeral:
  "bit_length (numeral (Num.Bit0 k)) = Suc (bit_length (numeral k))"
  "bit_length (numeral (Num.Bit1 k)) = Suc (bit_length (numeral k))"
  "bit_length 1 = 1"
  "bit_length (Suc 0) = 1"
proof -
  show "bit_length (numeral (Num.Bit0 k)) = Suc (bit_length (numeral k))"
    by (simp add: bit_length.simps[of "numeral (Num.Bit0 k)"])
  show "bit_length (numeral (Num.Bit1 k)) = Suc (bit_length (numeral k))"
    by (simp add: bit_length.simps[of "numeral (Num.Bit1 k)"])
  show "bit_length (Suc 0) = 1"
    by (simp add: bit_length.simps[of "Suc 0"] bit_length.simps[of 0])
  then show "bit_length 1 = 1" by simp
qed


section \<open>Code fences and white space\<close>

lemma rf_Nil: "remove_fences [] = []"
  by (simp add: remove_fences.simps)

lemma rf_json: "take 7 s = ''```json'' \<Longrightarrow> remove_fences s = remove_fences (drop 7 s)"
  by (subst remove_fences.simps) auto

lemma rf_tick:
  "take 7 s \<noteq> ''```json'' \<Longrightarrow> take 3 s = ''```'' \<Longrightarrow> remove_fences s = remove_fences (drop 3 s)"
  by (subst remove_fences.simps) auto

lemma rf_char:
  "s \<noteq> [] \<Longrightarrow> take 7 s \<noteq> ''```json'' \<Longrightarrow> take 3 s \<noteq> ''```''
    \<Longrightarrow> remove_fences s = hd s # remove_fences (tl s)"
  by (subst remove_fences.simps) auto

lemma mem_take: "length b < n \<Longrightarrow> w \<in> set (take n (b @ w # r))"
  by (cases "n - length b") auto

lemma take3_of_take7: "take 7 s = ''```json'' \<Longrightarrow> take 3 s = ''```''"
proof -
  assume "take 7 s = ''```json''"
  then have "take 3 (take 7 s) = take 3 ''```json''" by simp
  then show ?thesis by simp
qed

lemma rf_sep:
  assumes w: "w \<notin> set ''```json''"
  shows "remove_fences (b @ w # r) = remove_fences b @ w # remove_fences r"
proof (induction b rule: length_induct)
  case (1 b)
  let ?x = "w # r"
  have nomem: "\<And>n. length b < n \<Longrightarrow> take n (b @ ?x) \<noteq> ''```json'' \<and> take n (b @ ?x) \<noteq> ''```''"
  proof -
    fix n assume "length b < n"
    then have mem: "w \<in> set (take n (b @ ?x))" by (rule mem_take)
    show "take n (b @ ?x) \<noteq> ''```json'' \<and> take n (b @ ?x) \<noteq> ''```''"
    proof (intro conjI notI)
      assume e: "take n (b @ ?x) = ''```json''"
      from mem show False unfolding e using w by simp
    next
      assume e: "take n (b @ ?x) = ''```''"
      from mem show False unfolding e using w by simp
    qed
  qed
  show ?case
  proof (cases "b = []")
    case True
    have "take 7 ?x \<noteq> ''```json''" "take 3 ?x \<noteq> ''```''" using nomem[of 7] nomem[of 3] True by auto
    then show ?thesis using True by (simp add: rf_char rf_Nil)
  next
    case ne: False
    show ?thesis
    proof (cases "take 7 b = ''```json''")
      case True
      then have "length (take 7 b) = length ''```json''" by simp
      then have len: "7 \<le> length b" by simp
      then have d: "length (drop 7 b) < length b" by simp
      have "remove_fences (b @ ?x) = remove_fences (drop 7 b @ ?x)"
        using True len by (subst rf_json) auto
      also have "\<dots> = remove_fences (drop 7 b) @ w # remove_fences r" using 1 d by blast
      also have "remove_fences (drop 7 b) = remove_fences b" using True by (simp add: rf_json)
      finally show ?thesis .
    next
      case n7: False
      have n7x: "take 7 (b @ ?x) \<noteq> ''```json''"
      proof (cases "7 \<le> length b")
        case True
        then show ?thesis using n7 by simp
      next
        case False
        then show ?thesis using nomem[of 7] by simp
      qed
      show ?thesis
      proof (cases "take 3 b = ''```''")
        case True
        then have "length (take 3 b) = length ''```''" by simp
        then have len: "3 \<le> length b" by simp
        then have d: "length (drop 3 b) < length b" by simp
        have "remove_fences (b @ ?x) = remove_fences (drop 3 b @ ?x)"
          using True len n7x by (subst rf_tick) auto
        also have "\<dots> = remove_fences (drop 3 b) @ w # remove_fences r" using 1 d by blast
        also have "remove_fences (drop 3 b) = remove_fences b" using True n7 by (simp add: rf_tick)
        finally show ?thesis .
      next
        case n3: False
        have n3x: "take 3 (b @ ?x) \<noteq> ''```''"
        proof (cases "3 \<le> length b")
          case True
          then show ?thesis using n3 by simp
        next
          case False
          then show ?thesis using nomem[of 3] by simp
        qed
        have d: "length (tl b) < length b" using ne by simp
        have "remove_fences (b @ ?x) = hd b # remove_fences (tl b @ ?x)"
          using ne n7x n3x by (subst rf_char) auto
        also have "remove_fences (tl b @ ?x) = remove_fences (tl b) @ w # remove_fences r"
          using 1 d by blast
        also have "hd b # (remove_fences (tl b) @ w # remove_fences r) = remove_fences b @ w # remove_fences r"
          using ne n7 n3 by (simp add: rf_char)
        finally show ?thesis .
      qed
    qed
  qed
qed

lemma rf_fence_end: "remove_fences (b @ ''```'') = remove_fences b"
proof (induction b rule: length_induct)
  case (1 b)
  let ?x = "''```''"
  show ?case
  proof (cases "b = []")
    case True
    then show ?thesis by (simp add: rf_tick rf_Nil)
  next
    case ne: False
    show ?thesis
    proof (cases "take 7 b = ''```json''")
      case True
      then have "length (take 7 b) = length ''```json''" by simp
      then have len: "7 \<le> length b" by simp
      then have d: "length (drop 7 b) < length b" by simp
      have "remove_fences (b @ ?x) = remove_fences (drop 7 b @ ?x)"
        using True len by (subst rf_json) auto
      also have "\<dots> = remove_fences (drop 7 b)" using 1 d by blast
      also have "\<dots> = remove_fences b" using True by (simp add: rf_json)
      finally show ?thesis .
    next
      case n7: False
      show ?thesis
      proof (cases "take 3 b = ''```''")
        case True
        then have "length (take 3 b) = length ''```''" by simp
        then have len: "3 \<le> length b" by simp
        then have d: "length (drop 3 b) < length b" by simp
        have n7x: "take 7 (b @ ?x) \<noteq> ''```json''"
        proof (cases "7 \<le> length b")
          case True
          then show ?thesis using n7 by simp
        next
          case False
          show ?thesis
          proof
            assume e: "take 7 (b @ ?x) = ''```json''"
            have "length b < 7" using False by simp
            then have "take 7 (b @ ?x) ! length b = (b @ ?x) ! length b" by (rule nth_take)
            moreover have "(b @ ?x) ! length b = CHR 0x60" by (simp add: nth_append)
            ultimately have "''```json'' ! length b = CHR 0x60" using e by simp
            moreover have "length b = 3 \<or> length b = 4 \<or> length b = 5 \<or> length b = 6"
              using len False by linarith
            ultimately show False by auto
          qed
        qed
        have "remove_fences (b @ ?x) = remove_fences (drop 3 b @ ?x)"
          using True len n7x by (subst rf_tick) auto
        also have "\<dots> = remove_fences (drop 3 b)" using 1 d by blast
        also have "\<dots> = remove_fences b" using True n7 by (simp add: rf_tick)
        finally show ?thesis .
      next
        case n3: False
        show ?thesis
        proof (cases "take 3 (b @ ?x) = ''```''")
          case True
          have short: "length b < 3"
          proof (rule ccontr)
            assume "\<not> length b < 3"
            then have "take 3 (b @ ?x) = take 3 b" by simp
            with True n3 show False by simp
          qed
          have b: "b = [CHR 0x60] \<or> b = [CHR 0x60, CHR 0x60]"
          proof (cases b)
            case Nil
            with ne show ?thesis by simp
          next
            case (Cons c r)
            show ?thesis
            proof (cases r)
              case Nil
              with Cons True show ?thesis by simp
            next
              case (Cons d r')
              with \<open>b = c # r\<close> short have "r' = []" by simp
              with Cons \<open>b = c # r\<close> True show ?thesis by simp
            qed
          qed
          then show ?thesis
          proof
            assume "b = [CHR 0x60]"
            then show ?thesis by (simp add: rf_tick)
          next
            assume "b = [CHR 0x60, CHR 0x60]"
            then show ?thesis by (simp add: rf_tick)
          qed
        next
          case n3x: False
          have n7x: "take 7 (b @ ?x) \<noteq> ''```json''" using n3x take3_of_take7 by blast
          have d: "length (tl b) < length b" using ne by simp
          have "remove_fences (b @ ?x) = hd b # remove_fences (tl b @ ?x)"
            using ne n7x n3x by (subst rf_char) auto
          also have "remove_fences (tl b @ ?x) = remove_fences (tl b)" using 1 d by blast
          also have "hd b # remove_fences (tl b) = remove_fences b"
            using ne n7 n3 by (simp add: rf_char)
          finally show ?thesis .
        qed
      qed
    qed
  qed
qed

lemma ws_not_fence: "is_ws c \<Longrightarrow> c \<notin> set ''```json''"
  by (auto simp: is_ws_def)

lemma rf_ws_prefix: "list_all is_ws w \<Longrightarrow> remove_fences (w @ s) = w @ remove_fences s"
proof (induction w)
  case Nil
  then show ?case by simp
next
  case (Cons c w)
  then have c: "c \<notin> set ''```json''" using ws_not_fence by simp
  have "remove_fences ((c # w) @ s) = remove_fences ([] @ c # (w @ s))" by simp
  also have "\<dots> = remove_fences [] @ c # remove_fences (w @ s)" using c by (rule rf_sep)
  finally show ?case using Cons by (simp add: rf_Nil)
qed

lemma rf_ws_suffix:
  assumes "list_all is_ws w" "w \<noteq> []"
  shows "remove_fences (s @ w @ t) = remove_fences s @ w @ remove_fences t"
proof (cases w)
  case Nil
  with assms show ?thesis by simp
next
  case (Cons c r)
  with assms have c: "c \<notin> set ''```json''" and r: "list_all is_ws r" using ws_not_fence by auto
  have "remove_fences (s @ c # (r @ t)) = remove_fences s @ c # remove_fences (r @ t)"
    using c by (rule rf_sep)
  then show ?thesis using Cons r by (simp add: rf_ws_prefix)
qed

lemma trim_prefix: "list_all is_ws w \<Longrightarrow> trim (w @ s) = trim s"
  by (simp add: trim_def dropWhile_append2 list_all_iff)

lemma trim_suffix:
  assumes "list_all is_ws w"
  shows "trim (s @ w) = trim s"
proof (cases "list_all is_ws s")
  case True
  then have "\<forall>x \<in> set (s @ w). is_ws x" "\<forall>x \<in> set s. is_ws x"
    using assms by (auto simp: list_all_iff)
  then have "dropWhile is_ws (s @ w) = []" "dropWhile is_ws s = []"
    by (simp_all only: dropWhile_eq_Nil_conv)
  then show ?thesis by (simp only: trim_def)
next
  case False
  then obtain x where x: "x \<in> set s" "\<not> is_ws x" by (auto simp: list_all_iff)
  then have 1: "dropWhile is_ws (s @ w) = dropWhile is_ws s @ w" by (simp add: dropWhile_append1)
  have "\<And>x. x \<in> set (rev w) \<Longrightarrow> is_ws x" using assms by (simp add: list_all_iff)
  then have "dropWhile is_ws (rev w @ rev (dropWhile is_ws s)) = dropWhile is_ws (rev (dropWhile is_ws s))"
    by (rule dropWhile_append2)
  then show ?thesis by (simp add: trim_def 1)
qed

lemma trim_decomp: "\<exists>w1 w2. list_all is_ws w1 \<and> list_all is_ws w2 \<and> s = w1 @ trim s @ w2"
proof -
  let ?m = "dropWhile is_ws s"
  have 1: "s = takeWhile is_ws s @ ?m" by simp
  have "rev (takeWhile is_ws (rev ?m) @ dropWhile is_ws (rev ?m)) = rev (rev ?m)"
    by (simp only: takeWhile_dropWhile_id)
  then have "rev (dropWhile is_ws (rev ?m)) @ rev (takeWhile is_ws (rev ?m)) = ?m"
    by (simp only: rev_append rev_rev_ident)
  then have 2: "?m = trim s @ rev (takeWhile is_ws (rev ?m))"
    unfolding trim_def by (rule sym)
  have a: "list_all is_ws (takeWhile is_ws s)" by (simp add: list_all_iff) (meson set_takeWhileD)
  have b: "list_all is_ws (rev (takeWhile is_ws (rev ?m)))" by (simp add: list_all_iff) (meson set_takeWhileD)
  from 1 2 have "s = takeWhile is_ws s @ trim s @ rev (takeWhile is_ws (rev ?m))" by metis
  with a b show ?thesis by blast
qed

lemma trim_remove_trim: "trim (remove_fences (trim s)) = trim (remove_fences s)"
proof -
  from trim_decomp obtain w1 w2 where w: "list_all is_ws w1" "list_all is_ws w2" and s: "s = w1 @ trim s @ w2"
    by blast
  have "remove_fences s = remove_fences (w1 @ trim s @ w2)" using s by simp
  also have "\<dots> = w1 @ remove_fences (trim s @ w2)" using w(1) by (rule rf_ws_prefix)
  also have "remove_fences (trim s @ w2) = remove_fences (trim s) @ w2"
  proof (cases "w2 = []")
    case True
    then show ?thesis by simp
  next
    case False
    from rf_ws_suffix[OF w(2) False, of "trim s" "[]"] show ?thesis by (simp add: rf_Nil)
  qed
  finally have "remove_fences s = w1 @ remove_fences (trim s) @ w2" .
  then show ?thesis using w by (simp add: trim_prefix trim_suffix)
qed

lemma trim_noop: "s \<noteq> [] \<Longrightarrow> \<not> is_ws (hd s) \<Longrightarrow> \<not> is_ws (last s) \<Longrightarrow> trim s = s"
proof -
  assume a: "s \<noteq> []" "\<not> is_ws (hd s)" "\<not> is_ws (last s)"
  then have 1: "dropWhile is_ws s = s" by (cases s) auto
  have "rev s \<noteq> []" "\<not> is_ws (hd (rev s))" using a by (simp_all add: hd_rev)
  then have "dropWhile is_ws (rev s) = rev s" by (cases "rev s") auto
  with 1 show ?thesis by (simp add: trim_def)
qed

lemma strip_fenced:
  assumes "list_all is_ws w1" "list_all is_ws w2"
  shows "trim (remove_fences (trim (''```json'' @ w1 @ b @ w2 @ ''```''))) = trim (remove_fences (trim b))"
proof -
  let ?f = "''```json'' @ w1 @ b @ w2 @ ''```''"
  have t: "trim ?f = ?f" by (rule trim_noop) (simp_all add: is_ws_def)
  have "remove_fences ?f = remove_fences (w1 @ b @ w2 @ ''```'')" by (subst rf_json) simp_all
  also have "\<dots> = w1 @ remove_fences (b @ w2 @ ''```'')" using assms(1) by (rule rf_ws_prefix)
  also have "remove_fences (b @ w2 @ ''```'') = remove_fences b @ w2"
  proof (cases "w2 = []")
    case True
    then show ?thesis using rf_fence_end[of b] by simp
  next
    case False
    from rf_ws_suffix[OF assms(2) False, of b "''```''"] show ?thesis by (simp add: rf_tick rf_Nil)
  qed
  finally have "remove_fences ?f = w1 @ remove_fences b @ w2" .
  then have "trim (remove_fences (trim ?f)) = trim (remove_fences b)"
    unfolding t using assms by (simp add: trim_prefix trim_suffix)
  then show ?thesis by (simp add: trim_remove_trim)
qed

section \<open>The generator and the loop body never throw\<close>

lemma inserts_append: "inserts (a @ b) = inserts a @ inserts b"
  by (induction a rule: inserts.induct) auto

lemma posts_append: "posts (a @ b) = posts a @ posts b"
  by (induction a rule: posts.induct) auto

lemma queries_append: "queries (a @ b) = queries a @ queries b"
  by (induction a rule: queries.induct) auto

lemmas io_defs = bind_def try_catch_def emit_def ret_def throw_def lift_def

lemma strip_and_parse_total:
  "(\<exists>v t. strip_and_parse E a = (Inr v, t) \<and> inserts t = [] \<and> posts t = [] \<and> queries t = []
      \<and> (v = Null \<or> (\<exists>s. JSON_parse E s = Some v))) \<or>
   (\<exists>e. strip_and_parse E a = (Inl e, []))"
  by (cases a) (auto simp: strip_and_parse_def io_defs Let_def split: option.splits)

lemma generator_total:
  "\<exists>v t. processDataWithAI E text = (Inr v, t) \<and> inserts t = [] \<and> queries t = []
      \<and> (v = Null \<or> (\<exists>s. JSON_parse E s = Some v))"
proof (cases "\<not> truthy text \<or> typeof text \<noteq> ''string''")
  case True
  then show ?thesis by (auto simp: processDataWithAI_def io_defs)
next
  case False
  then obtain s where s: "text = Str s" "s \<noteq> []" by (cases "text") auto
  let ?h = "\<lambda>error. bind (emit (Log (OpenRouterError error))) (\<lambda>_.
             bind (case error of AxiosError m (Some d) \<Rightarrow> emit (Log (FullApiError d)) | _ \<Rightarrow> ret ())
               (\<lambda>_. ret Null))"
  have h: "\<And>e. \<exists>t. ?h e = (Inr Null, t) \<and> inserts t = [] \<and> queries t = []"
    by (auto simp: io_defs split: exn.splits option.splits)
  let ?body = "bind (lift (slice0 text 1000)) (\<lambda>content.
           bind (axios_post E content) (\<lambda>data.
           bind (lift (completion_content data)) (\<lambda>c.
           strip_and_parse E (if truthy c then c else Str ''{}''))))"
  have b: "(\<exists>v t. ?body = (Inr v, t) \<and> inserts t = [] \<and> queries t = [] \<and> (v = Null \<or> (\<exists>s. JSON_parse E s = Some v)))
        \<or> (\<exists>e t. ?body = (Inl e, t) \<and> inserts t = [] \<and> queries t = [])"
  proof (cases "post E (take 1000 s)")
    case (Inl e)
    then show ?thesis using s by (simp add: io_defs axios_post_def)
  next
    case (Inr data)
    show ?thesis
    proof (cases "completion_content data")
      case (Inl e)
      then show ?thesis using s Inr by (simp add: io_defs axios_post_def)
    next
      case c: (Inr c)
      from strip_and_parse_total[of E "if truthy c then c else Str ''{}''"]
      show ?thesis using s Inr c by (auto simp: io_defs axios_post_def)
    qed
  qed
  have p: "processDataWithAI E text = try_catch ?body ?h"
    using False by (simp add: processDataWithAI_def)
  from b show ?thesis
  proof
    assume "\<exists>v t. ?body = (Inr v, t) \<and> inserts t = [] \<and> queries t = [] \<and> (v = Null \<or> (\<exists>s. JSON_parse E s = Some v))"
    then obtain v t where "?body = (Inr v, t)" "inserts t = []" "queries t = []" "v = Null \<or> (\<exists>s. JSON_parse E s = Some v)" by blast
    then show ?thesis unfolding p by (simp add: try_catch_def)
  next
    assume "\<exists>e t. ?body = (Inl e, t) \<and> inserts t = [] \<and> queries t = []"
    then obtain e t where e: "?body = (Inl e, t)" "inserts t = []" "queries t = []" by blast
    from h[of e] obtain t' where "?h e = (Inr Null, t')" "inserts t' = []" "queries t' = []" by blast
    with e show ?thesis unfolding p by (simp add: try_catch_def inserts_append queries_append)
  qed
qed

lemma get_truthy: "truthy g \<Longrightarrow> \<exists>v. get g k = Inr v"
  by (cases g) (auto split: option.splits)

lemma invalid_content_total: "\<exists>b. invalid_content g = Inr b"
proof (cases "truthy g")
  case False
  then have "invalid_content g = Inr True" by (simp add: invalid_content_def)
  then show ?thesis ..
next
  case True
  from get_truthy[OF True, of "''main_title''"] get_truthy[OF True, of "''main_description''"]
  show ?thesis using True by (auto simp: invalid_content_def bindE_def)
qed

lemma new_row_total: "truthy g \<Longrightarrow> \<exists>row. new_row c g = Inr row"
proof -
  assume t: "truthy g"
  from get_truthy[OF t, of "''main_title''"] get_truthy[OF t, of "''main_description''"]
    get_truthy[OF t, of "''read_more_titles''"] get_truthy[OF t, of "''read_more_descriptions''"]
  show ?thesis by (auto simp: new_row_def bindE_def)
qed

lemma invalid_content_False_truthy: "invalid_content g = Inr False \<Longrightarrow> truthy g"
  by (auto simp: invalid_content_def split: if_splits)

lemma entry_fetch_error:
  "select E i = (d, Some m) \<Longrightarrow> processEntry E i = (Inr (), [Query i, Log (ErrorFetching i m)])"
  by (simp add: processEntry_def io_defs split: option.splits list.splits)

lemma entry_no_data:
  "select E i = (None, None) \<or> select E i = (Some [], None)
    \<Longrightarrow> processEntry E i = (Inr (), [Query i, Log (NoDataFound i)])"
  by (auto simp: processEntry_def io_defs)

lemma entry_invalid:
  assumes "select E i = (Some (r # rs), None)"
    and "processDataWithAI E (Str (prompt r)) = (Inr g, t)"
    and "invalid_content g = Inr True"
  shows "processEntry E i =
    (Inr (), [Query i, Log (ProcessingEntry i)] @ t @ [Log (NoValidContent i)])"
  using assms by (simp add: processEntry_def io_defs)

lemma entry_valid:
  assumes "select E i = (Some (r # rs), None)"
    and "processDataWithAI E (Str (prompt r)) = (Inr g, t)"
    and "invalid_content g = Inr False"
    and "new_row (category_display_name r) g = Inr row"
  shows "processEntry E i =
    (Inr (), [Query i, Log (ProcessingEntry i)] @ t @
       [Insert row, Log (case insert_row E row of Some m \<Rightarrow> ErrorInserting i m | None \<Rightarrow> Saved i)])"
  using assms by (simp add: processEntry_def io_defs split: option.splits)

lemma entry_cases:
  obtains (fetch_error) d m where "select E i = (d, Some m)"
      "processEntry E i = (Inr (), [Query i, Log (ErrorFetching i m)])"
  | (no_data) "select E i = (None, None) \<or> select E i = (Some [], None)"
      "processEntry E i = (Inr (), [Query i, Log (NoDataFound i)])"
  | (invalid) r rs g t where "select E i = (Some (r # rs), None)"
      "processDataWithAI E (Str (prompt r)) = (Inr g, t)" "inserts t = []" "queries t = []"
      "invalid_content g = Inr True"
      "processEntry E i = (Inr (), [Query i, Log (ProcessingEntry i)] @ t @ [Log (NoValidContent i)])"
  | (valid) r rs g t row where "select E i = (Some (r # rs), None)"
      "processDataWithAI E (Str (prompt r)) = (Inr g, t)" "inserts t = []" "queries t = []"
      "invalid_content g = Inr False" "new_row (category_display_name r) g = Inr row"
      "processEntry E i = (Inr (), [Query i, Log (ProcessingEntry i)] @ t @
         [Insert row, Log (case insert_row E row of Some m \<Rightarrow> ErrorInserting i m | None \<Rightarrow> Saved i)])"
proof (cases "select E i")
  case (Pair d err)
  show ?thesis
  proof (cases err)
    case (Some m)
    with Pair entry_fetch_error[of E i d m] fetch_error show ?thesis by blast
  next
    case None
    show ?thesis
    proof (cases d)
      case n: None
      with Pair None entry_no_data[of E i] no_data show ?thesis by simp
    next
      case (Some rows)
      show ?thesis
      proof (cases rows)
        case Nil
        with Pair None Some entry_no_data[of E i] no_data show ?thesis by simp
      next
        case (Cons r rs)
        with Pair None Some have sel: "select E i = (Some (r # rs), None)" by simp
        from generator_total[of E "Str (prompt r)"] obtain g t where
          g: "processDataWithAI E (Str (prompt r)) = (Inr g, t)" and t: "inserts t = []" "queries t = []"
          by blast
        from invalid_content_total[of g] obtain b where b: "invalid_content g = Inr b" ..
        show ?thesis
        proof (cases b)
          case True
          with b have tr: "invalid_content g = Inr True" by simp
          from invalid[OF sel g t tr entry_invalid[OF sel g tr]] show ?thesis .
        next
          case False
          with b have f: "invalid_content g = Inr False" by simp
          then have "truthy g" by (rule invalid_content_False_truthy)
          from new_row_total[OF this] obtain row where
            row: "new_row (category_display_name r) g = Inr row" ..
          from valid[OF sel g t f row entry_valid[OF sel g f row]] show ?thesis .
        qed
      qed
    qed
  qed
qed

lemma entry_total: "\<exists>t. processEntry E i = (Inr (), t)"
  by (cases E i rule: entry_cases) auto

lemma entry_queries: "queries (snd (processEntry E i)) = [i]"
  by (cases E i rule: entry_cases) (auto simp: queries_append)

lemma entries_concat:
  "processEntries E ids = (Inr (), concat (map (\<lambda>i. snd (processEntry E i)) ids))"
proof (induction ids)
  case Nil
  then show ?case by (simp add: ret_def)
next
  case (Cons i ids)
  from entry_total[of E i] obtain t where "processEntry E i = (Inr (), t)" ..
  with Cons show ?case by (simp add: bind_def)
qed


section \<open>The sample collaborators at work\<close>

lemma rf_no_tick: "CHR 0x60 \<notin> set s \<Longrightarrow> remove_fences s = s"
proof (induction s)
  case Nil
  then show ?case by (simp add: rf_Nil)
next
  case (Cons c s)
  then have "take 7 (c # s) \<noteq> ''```json''" "take 3 (c # s) \<noteq> ''```''" by auto
  then have "remove_fences (c # s) = c # remove_fences s" by (simp add: rf_char)
  with Cons show ?case by simp
qed

lemma strip_plain:
  assumes "CHR 0x60 \<notin> set s" "s \<noteq> []" "\<not> is_ws (hd s)" "\<not> is_ws (last s)"
  shows "trim (remove_fences (trim s)) = s"
  using assms by (simp add: trim_noop rf_no_tick)

lemma completion_content_completion: "completion_content (completion c) = Inr (Str c)"
  by (simp add: completion_content_def completion_def bindE_def opt_get_def array_index_def
      is_digit_iff radix_value_def digit_of_def)

lemma generator_on_completion:
  assumes "s \<noteq> []" "post E (take 1000 s) = Inr (completion c)" "c \<noteq> []"
  shows "processDataWithAI E (Str s) =
    (case JSON_parse E (trim (remove_fences (trim c))) of
       Some v \<Rightarrow> (Inr v, [Post (take 1000 s)])
     | None \<Rightarrow> (Inr Null, [Post (take 1000 s), Log JsonParseError,
                            Log (RawJsonString (trim (remove_fences (trim c))))]))"
  using assms
  by (simp add: processDataWithAI_def axios_post_def completion_content_completion
      strip_and_parse_def io_defs Let_def split: option.splits)

lemma stub_select:
  "i \<noteq> Fin 2 \<Longrightarrow> i \<noteq> Fin 4 \<Longrightarrow> select (stub_env body) i = (Some [stub_row i], None)"
  "select (stub_env body) (Fin 2) = (None, Some ''timeout'')"
  "select (stub_env body) (Fin 4) = (Some [], None)"
  by (simp_all add: stub_env_def)

lemma stub_prompt: "prompt (stub_row i) = ''Q A Cat''"
  by (simp add: prompt_def stub_row_def)

lemma json_full_strip: "trim (remove_fences (trim json_full)) = json_full"
  by (rule strip_plain) (simp_all add: json_full_def dq_def is_ws_def)

lemma stub_generator_full:
  "processDataWithAI (stub_env json_full) (Str ''Q A Cat'') =
    (Inr (Obj [(''main_title'', Str ''T''), (''main_description'', Str ''D''),
               (''read_more_titles'', Arr [Str ''a'', Str ''b'', Str ''c'']),
               (''read_more_descriptions'', Arr [Str ''x'', Str ''y'', Str ''z''])]),
     [Post ''Q A Cat''])"
proof -
  have ne: "json_full \<noteq> []" by (simp add: json_full_def)
  have p: "post (stub_env json_full) (take 1000 ''Q A Cat'') = Inr (completion json_full)"
    by (simp add: stub_env_def)
  have j: "JSON_parse (stub_env json_full) = stub_parse" by (simp add: stub_env_def)
  show ?thesis
    by (subst generator_on_completion[OF _ p ne]) (simp_all add: json_full_strip j stub_parse_def)
qed

lemma stub_entry_full:
  assumes "i \<noteq> Fin 2" "i \<noteq> Fin 4"
  shows "processEntry (stub_env json_full) i =
    (Inr (), [Query i, Log (ProcessingEntry i), Post ''Q A Cat'', Insert full_row, Log (Saved i)])"
proof -
  let ?g = "Obj [(''main_title'', Str ''T''), (''main_description'', Str ''D''),
               (''read_more_titles'', Arr [Str ''a'', Str ''b'', Str ''c'']),
               (''read_more_descriptions'', Arr [Str ''x'', Str ''y'', Str ''z''])]"
  have sel: "select (stub_env json_full) i = (Some (stub_row i # []), None)"
    using assms by (simp add: stub_select)
  have g: "processDataWithAI (stub_env json_full) (Str (prompt (stub_row i))) = (Inr ?g, [Post ''Q A Cat''])"
    by (simp add: stub_prompt stub_generator_full)
  have v: "invalid_content ?g = Inr False" by (simp add: invalid_content_def bindE_def)
  have r: "new_row (category_display_name (stub_row i)) ?g = Inr full_row"
    by (simp add: new_row_def bindE_def stub_row_def full_row_def)
  have ins: "insert_row (stub_env json_full) full_row = None" by (simp add: stub_env_def)
  from entry_valid[OF sel g v r] show ?thesis by (simp add: ins)
qed


section \<open>Further facts for the claims\<close>

lemma radix_value_nonneg: "0 \<le> radix_value b s"
proof -
  have "\<And>a. 0 \<le> a \<Longrightarrow> 0 \<le> foldl (\<lambda>a c. int b * a + int (the (digit_of c))) a s"
    by (induction s) auto
  then show ?thesis by (simp add: radix_value_def)
qed

lemma Number_digits_exact:
  assumes "s \<noteq> []" "list_all is_digit s" "dec s \<le> 2 ^ 53"
  shows "Number s = Fin (of_int (dec s))"
proof -
  have "\<bar>dec s\<bar> \<le> 2 ^ 53" using assms(3) radix_value_nonneg[of 10 s] by simp
  then show ?thesis using assms by (simp add: Number_digits round_double_of_int)
qed

lemma dadd_int:
  "\<bar>a + b\<bar> \<le> 2 ^ 53 \<Longrightarrow> dadd (Fin (of_int a)) (Fin (of_int b)) = Fin (of_int (a + b))"
  using round_double_of_int[of "a + b"] by simp

lemma upto_shift: "map (\<lambda>i. m + i) [0 .. k] = [m .. m + k]"
  by (rule nth_equalityI) auto

lemma floor_rat_numeral: "\<lfloor>numeral a / numeral b :: rat\<rfloor> = numeral a div numeral b"
  using floor_divide_of_int_eq[of "numeral a" "numeral b", where ?'a = rat] by simp

lemmas round_eval = round_double_def ilog2_def bit_length_numeral pow2_def round_half_even_def
  Let_def floor_rat_numeral

lemma round_double_above_2_53:
  "round_double 9007199254740993 = Fin 9007199254740992"
  "round_double 9007199254740994 = Fin 9007199254740994"
  by (simp_all add: round_eval)

lemmas eval_simps = Number_digits is_digit_iff radix_value_def digit_of_def round_double_numeral
  idList_def array_from_def dsub_def upto_rec1

lemma Number_three: "Number ''3'' = Fin 3"
  by (simp add: Number_digits is_digit_iff radix_value_def digit_of_def round_double_numeral)

lemma Number_fraction: "Number ''1.5'' = Fin (3 / 2)"
  by (simp add: Number_def trim_def is_ws_def non_decimal_def unsigned_decimal_def
      exponent_part_def pow10_def is_digit_iff radix_value_def digit_of_def round_eval)

lemma trim_trim: "trim (trim s) = trim s"
proof (cases "trim s = []")
  case True
  moreover have "trim [] = []" by (simp add: trim_def)
  ultimately show ?thesis by simp
next
  case False
  let ?m = "dropWhile is_ws s"
  let ?d = "dropWhile is_ws (rev ?m)"
  have t: "trim s = rev ?d" by (simp add: trim_def)
  with False have d: "?d \<noteq> []" by simp
  have m: "?m \<noteq> []"
  proof
    assume "?m = []"
    then have "?d = dropWhile is_ws (rev [])" by (simp only:)
    with d show False by simp
  qed
  have 1: "\<not> is_ws (hd ?d)" using d by (rule hd_dropWhile)
  have "?d = drop (length (takeWhile is_ws (rev ?m))) (rev ?m)" by (rule dropWhile_eq_drop)
  then have "last ?d = last (rev ?m)" using d by (metis last_drop drop_eq_Nil not_le)
  then have "last ?d = hd ?m" using m by (simp add: last_rev)
  moreover have "\<not> is_ws (hd ?m)" using m by (rule hd_dropWhile)
  ultimately have 2: "\<not> is_ws (last ?d)" by simp
  have "trim (rev ?d) = rev ?d"
    using d 1 2 by (intro trim_noop) (simp_all add: hd_rev last_rev)
  then show ?thesis by (simp add: t)
qed

lemma trim_subset: "set (trim s) \<subseteq> set s"
proof -
  have "set (trim s) \<subseteq> set (dropWhile is_ws s)"
    unfolding trim_def set_rev using set_dropWhileD by fastforce
  also have "\<dots> \<subseteq> set s" using set_dropWhileD by fastforce
  finally show ?thesis .
qed

lemma strip_no_tick: "CHR 0x60 \<notin> set b \<Longrightarrow> trim (remove_fences (trim b)) = trim b"
proof -
  assume "CHR 0x60 \<notin> set b"
  then have "CHR 0x60 \<notin> set (trim b)" using trim_subset by fastforce
  then show ?thesis by (simp add: rf_no_tick trim_trim)
qed

lemma generator_invalid_input:
  "\<not> truthy text \<or> typeof text \<noteq> ''string''
    \<Longrightarrow> processDataWithAI E text = (Inr Null, [Log (InvalidInputText text)])"
  by (auto simp: processDataWithAI_def io_defs)

lemma generator_post_error:
  assumes "s \<noteq> []" "post E (take 1000 s) = Inl e"
  shows "\<exists>t. processDataWithAI E (Str s) = (Inr Null, Post (take 1000 s) # t) \<and> posts t = []"
  using assms
  by (auto simp: processDataWithAI_def io_defs axios_post_def split: exn.splits option.splits)

lemma generator_content_error:
  assumes "s \<noteq> []" "post E (take 1000 s) = Inr data" "completion_content data = Inl e"
  shows "\<exists>t. processDataWithAI E (Str s) = (Inr Null, Post (take 1000 s) # t) \<and> posts t = []"
  using assms
  by (auto simp: processDataWithAI_def io_defs axios_post_def split: exn.splits option.splits)

lemma generator_content:
  assumes "s \<noteq> []" "post E (take 1000 s) = Inr data" "completion_content data = Inr c"
  shows "\<exists>v t. processDataWithAI E (Str s) = (Inr v, Post (take 1000 s) # t) \<and> posts t = []"
proof -
  let ?c = "if truthy c then c else Str ''{}''"
  from strip_and_parse_total[of E ?c] show ?thesis
  proof
    assume "\<exists>v t. strip_and_parse E ?c = (Inr v, t) \<and> inserts t = [] \<and> posts t = [] \<and> queries t = []
      \<and> (v = Null \<or> (\<exists>s. JSON_parse E s = Some v))"
    then obtain v t where "strip_and_parse E ?c = (Inr v, t)" "posts t = []" by blast
    then show ?thesis using assms
      by (simp add: processDataWithAI_def io_defs axios_post_def)
  next
    assume "\<exists>e. strip_and_parse E ?c = (Inl e, [])"
    then obtain e where "strip_and_parse E ?c = (Inl e, [])" ..
    then show ?thesis using assms
      by (auto simp: processDataWithAI_def io_defs axios_post_def split: exn.splits option.splits)
  qed
qed

lemma generator_posts:
  assumes "s \<noteq> []"
  shows "posts (snd (processDataWithAI E (Str s))) = [take 1000 s]"
proof (cases "post E (take 1000 s)")
  case (Inl e)
  from generator_post_error[OF assms Inl] show ?thesis by auto
next
  case (Inr data)
  show ?thesis
  proof (cases "completion_content data")
    case (Inl e)
    from generator_content_error[OF assms Inr Inl] show ?thesis by auto
  next
    case c: (Inr c)
    from generator_content[OF assms Inr c] show ?thesis by auto
  qed
qed

lemma strip_and_parse_Str:
  "strip_and_parse E (Str b) =
    (case JSON_parse E (trim (remove_fences (trim b))) of
       Some v \<Rightarrow> (Inr v, [])
     | None \<Rightarrow> (Inr Null, [Log JsonParseError, Log (RawJsonString (trim (remove_fences (trim b))))]))"
  by (simp add: strip_and_parse_def io_defs Let_def split: option.splits)

lemma new_row_fields:
  assumes "new_row c g = Inr row"
  shows "ins_category_display_name row = c"
    "get g ''main_title'' = Inr (title row)" "get g ''main_description'' = Inr (description row)"
    "get g ''read_more_titles'' = Inr (read_more_titles row)"
    "get g ''read_more_descriptions'' = Inr (read_more_texts row)"
  using assms by (auto simp: new_row_def bindE_def split: sum.splits)

lemma stub_generator:
  assumes "body \<noteq> []"
  shows "processDataWithAI (stub_env body) (Str ''Q A Cat'') =
    (case stub_parse (trim (remove_fences (trim body))) of
       Some v \<Rightarrow> (Inr v, [Post ''Q A Cat''])
     | None \<Rightarrow> (Inr Null, [Post ''Q A Cat'', Log JsonParseError,
                            Log (RawJsonString (trim (remove_fences (trim body))))]))"
proof -
  have p: "post (stub_env body) (take 1000 ''Q A Cat'') = Inr (completion body)"
    by (simp add: stub_env_def)
  have j: "JSON_parse (stub_env body) = stub_parse" by (simp add: stub_env_def)
  show ?thesis
    by (subst generator_on_completion[OF _ p assms]) (simp_all add: j split: option.splits)
qed

lemma json_untitled_strip: "trim (remove_fences (trim json_untitled)) = json_untitled"
  by (rule strip_plain) (simp_all add: json_untitled_def dq_def is_ws_def)

lemma json_partial_strip: "trim (remove_fences (trim json_partial)) = json_partial"
  by (rule strip_plain) (simp_all add: json_partial_def dq_def is_ws_def)

lemma stub_parse_simps:
  "stub_parse json_untitled = Some (Obj [(''main_title'', Str ''T'')])"
  "stub_parse json_partial = Some (Obj [(''main_title'', Str ''T''), (''main_description'', Str ''D''),
                   (''read_more_descriptions'', Num (Fin 5))])"
  by (simp_all add: stub_parse_def json_full_def json_partial_def json_untitled_def dq_def)


lemma split_nonempty: "split c s \<noteq> []"
  by (induction s) (auto split: list.splits)

lemma split_join:
  "ts \<noteq> [] \<Longrightarrow> \<forall>t \<in> set ts. c \<notin> set t \<Longrightarrow> split c (join c ts) = ts"
proof (induction c ts rule: join.induct)
  case (1 sep)
  then show ?case by simp
next
  case (2 sep t)
  then show ?case by (simp add: split_no_sep)
next
  case (3 sep t u ts)
  then have "split sep (join sep (u # ts)) = u # ts" by simp
  moreover have "sep \<notin> set t" using 3 by simp
  ultimately show ?case by (simp add: split_append)
qed

lemma join_Cons: "ts \<noteq> [] \<Longrightarrow> join c (t # ts) = t @ c # join c ts"
  by (cases ts) auto

lemma join_split: "join c (split c s) = s"
proof (induction s)
  case Nil
  then show ?case by simp
next
  case (Cons x xs)
  show ?case
  proof (cases "x = c")
    case True
    then show ?thesis using Cons by (simp add: join_Cons split_nonempty)
  next
    case False
    obtain t ts where sp: "split c xs = t # ts" using split_nonempty[of c xs] by (cases "split c xs") auto
    have "join c ((x # t) # ts) = x # join c (t # ts)" by (cases ts) auto
    then show ?thesis using False Cons sp by simp
  qed
qed

lemma split_tokens: "t \<in> set (split c s) \<Longrightarrow> c \<notin> set t \<and> set t \<subseteq> set s"
proof (induction s arbitrary: t)
  case Nil
  then show ?case by simp
next
  case (Cons x xs)
  show ?case
  proof (cases "x = c")
    case True
    then show ?thesis using Cons by auto
  next
    case False
    obtain u us where sp: "split c xs = u # us" using split_nonempty[of c xs] by (cases "split c xs") auto
    then have u: "c \<notin> set u \<and> set u \<subseteq> set xs" using Cons.IH[of u] by simp
    from Cons.prems False sp have "t = x # u \<or> t \<in> set us" by simp
    then show ?thesis
    proof
      assume "t = x # u"
      then show ?thesis using u False by auto
    next
      assume "t \<in> set us"
      then have "t \<in> set (split c xs)" using sp by simp
      then show ?thesis using Cons.IH[of t] by auto
    qed
  qed
qed

lemma set_join: "set (join c ts) \<subseteq> insert c (\<Union>t \<in> set ts. set t)"
  by (induction c ts rule: join.induct) auto

lemma sep_in_join: "2 \<le> length ts \<Longrightarrow> c \<in> set (join c ts)"
proof (cases ts)
  case Nil
  assume "2 \<le> length ts"
  with Nil show ?thesis by simp
next
  case (Cons t r)
  assume "2 \<le> length ts"
  with Cons obtain u us where "r = u # us" by (cases r) auto
  with Cons show ?thesis by simp
qed

lemma Number_letters: "Number ''abc'' = NaN"
  by (simp add: Number_def trim_def is_ws_def non_decimal_def unsigned_decimal_def
      exponent_part_def is_digit_iff)

lemma descending_range: "idList L ''20-10'' = Inr []"
  by (simp add: eval_simps)

lemma range_of_2_32: "idList L ''0-4294967295'' = Inl UncaughtRangeError"
  by (simp add: eval_simps)

lemma range_above_2_53:
  "3 \<le> L \<Longrightarrow> idList L ''9007199254740992-9007199254740994''
     = Inr [Fin 9007199254740992, Fin 9007199254740992, Fin 9007199254740994]"
  by (simp add: eval_simps round_double_above_2_53)

lemma range_of_fractions: "2 \<le> L \<Longrightarrow> idList L ''1.5-3'' = Inr [Fin (3 / 2), Fin (5 / 2)]"
proof -
  assume L: "2 \<le> L"
  have r: "round_double (3 / 2) = Fin (3 / 2)" "round_double (5 / 2) = Fin (5 / 2)"
    by (simp_all add: round_eval)
  show ?thesis
    using L by (simp add: idList_def Number_fraction Number_three dsub_def array_from_def r
        floor_rat_numeral upto_rec1)
qed

lemma list_of_odd_tokens:
  "idList L ''9007199254740993,1.5,abc'' = Inr [Fin 9007199254740992, Fin (3 / 2), NaN]"
  by (simp add: idList_def Number_fraction Number_letters Number_digits is_digit_iff
      radix_value_def digit_of_def round_double_above_2_53)

section \<open>Claims\<close>

text \<open>
  C1. A failure at any stage while one identifier is processed has no effect on the
  identifiers after it. The loop never ends early and every identifier leaves its own
  events, whatever happened to the others: the events of a batch are those of the
  identifiers before, those of the identifier itself and those the rest of the batch
  would cause alone. In particular, when the query for identifier 2 fails, the batch
  1, 2, 3 passes to the destination table the rows of 1 and 3 only, and queries all three.
\<close>

theorem failure_isolation:
  "processEntries E (before @ ident # rest) =
     (Inr (), snd (processEntries E before) @ snd (processEntry E ident) @ snd (processEntries E rest))
   \<and> (snd (select E (Fin 2)) \<noteq> None \<longrightarrow>
        inserts (snd (processEntries E [Fin 1, Fin 2, Fin 3])) =
          inserts (snd (processEntry E (Fin 1))) @ inserts (snd (processEntry E (Fin 3)))
        \<and> queries (snd (processEntries E [Fin 1, Fin 2, Fin 3])) = [Fin 1, Fin 2, Fin 3])"
proof (intro conjI impI)
  show "processEntries E (before @ ident # rest) =
     (Inr (), snd (processEntries E before) @ snd (processEntry E ident) @ snd (processEntries E rest))"
    by (simp add: entries_concat)
next
  assume "snd (select E (Fin 2)) \<noteq> None"
  then obtain d m where "select E (Fin 2) = (d, Some m)" by (cases "select E (Fin 2)") auto
  then have 2: "processEntry E (Fin 2) = (Inr (), [Query (Fin 2), Log (ErrorFetching (Fin 2) m)])"
    by (rule entry_fetch_error)
  then show "inserts (snd (processEntries E [Fin 1, Fin 2, Fin 3])) =
          inserts (snd (processEntry E (Fin 1))) @ inserts (snd (processEntry E (Fin 3)))"
    by (simp add: entries_concat inserts_append)
  show "queries (snd (processEntries E [Fin 1, Fin 2, Fin 3])) = [Fin 1, Fin 2, Fin 3]"
    by (simp add: entries_concat queries_append entry_queries)
qed

theorem failure_isolation_witness:
  "snd (select (stub_env json_full) (Fin 2)) \<noteq> None
   \<and> inserts (snd (processEntries (stub_env json_full) [Fin 1, Fin 2, Fin 3])) = [full_row, full_row]
   \<and> queries (snd (processEntries (stub_env json_full) [Fin 1, Fin 2, Fin 3])) = [Fin 1, Fin 2, Fin 3]"
proof -
  have s: "snd (select (stub_env json_full) (Fin 2)) \<noteq> None" by (simp add: stub_select)
  with failure_isolation[of "stub_env json_full" "[Fin 1]" "Fin 2" "[Fin 3]"]
  have "inserts (snd (processEntries (stub_env json_full) [Fin 1, Fin 2, Fin 3])) =
          inserts (snd (processEntry (stub_env json_full) (Fin 1))) @
          inserts (snd (processEntry (stub_env json_full) (Fin 3)))"
    and "queries (snd (processEntries (stub_env json_full) [Fin 1, Fin 2, Fin 3])) = [Fin 1, Fin 2, Fin 3]"
    by blast+
  then show ?thesis using s by (simp add: stub_entry_full del: processEntries.simps)
qed

text \<open>
  C2. The specification has the parser reject both the descending range \<^verbatim>\<open>20-10\<close> and the
  separator-free \<^verbatim>\<open>abc\<close>. The program has no check of the order of a range: for
  \<^verbatim>\<open>20-10\<close> the length given to \<^verbatim>\<open>Array.from\<close> is -9, which counts as 0, so the
  identifier list is empty, the program does not exit, and the batch runs over nothing.
\<close>

theorem descending_range_counterexample:
  "idList stub_max_length ''20-10'' = Inr []
   \<and> idList stub_max_length ''20-10'' \<noteq> Inl InvalidIdFormat
   \<and> main stub_max_length stub_config (stub_env json_full) [''20-10'']
       = (Inr (Inr ()), [Log (ProcessingIds [])])"
  by (simp add: descending_range main_def stub_config_def missing_def ret_def)

text \<open>
  C2, as the program has it. An argument with neither \<^verbatim>\<open>-\<close> nor \<^verbatim>\<open>,\<close> (so \<^verbatim>\<open>abc\<close>) is
  rejected: the program writes the message about the format and exits before any entry is
  processed. The descending range \<^verbatim>\<open>20-10\<close> is not rejected: it gives the empty list.
\<close>

theorem spec_without_separator_rejected:
  "(CHR ''-'' \<notin> set (concat argv) \<and> CHR '','' \<notin> set (concat argv)
      \<and> \<not> missing (SUPABASE_URL C) \<and> \<not> missing (SUPABASE_ANON_KEY C)
      \<and> \<not> missing (OPENROUTER_API_KEY C)
     \<longrightarrow> idList L (concat argv) = Inl InvalidIdFormat
       \<and> main L C E argv = (Inl InvalidIdFormat, [Log InvalidIdFormatMsg]))
   \<and> idList L ''20-10'' = Inr []"
proof (intro conjI impI)
  assume a: "CHR ''-'' \<notin> set (concat argv) \<and> CHR '','' \<notin> set (concat argv)
      \<and> \<not> missing (SUPABASE_URL C) \<and> \<not> missing (SUPABASE_ANON_KEY C)
      \<and> \<not> missing (OPENROUTER_API_KEY C)"
  then show i: "idList L (concat argv) = Inl InvalidIdFormat" by (simp add: idList_def)
  show "main L C E argv = (Inl InvalidIdFormat, [Log InvalidIdFormatMsg])"
    using a by (simp add: main_def i)
next
  show "idList L ''20-10'' = Inr []" by (rule descending_range)
qed

theorem spec_without_separator_rejected_witness:
  "idList stub_max_length ''abc'' = Inl InvalidIdFormat
   \<and> main stub_max_length stub_config (stub_env json_full) [''abc'']
       = (Inl InvalidIdFormat, [Log InvalidIdFormatMsg])"
  using spec_without_separator_rejected[of "[''abc'']" stub_config stub_max_length "stub_env json_full"]
  by (simp add: stub_config_def missing_def)

text \<open>
  C3. When the query for an identifier succeeds with a row and the generated content
  passes the check of line 132, exactly one row is passed to the destination table:
  its category is the one of the source row, its title, description, read_more_titles and
  read_more_texts are the main_title, main_description, read_more_titles and
  read_more_descriptions of the generated content.
\<close>

theorem valid_content_inserted:
  assumes "select E i = (Some (r # rs), None)"
    and "processDataWithAI E (Str (prompt r)) = (Inr g, t)"
    and "invalid_content g = Inr False"
  shows "\<exists>row. inserts (snd (processEntry E i)) = [row]
     \<and> ins_category_display_name row = category_display_name r
     \<and> get g ''main_title'' = Inr (title row)
     \<and> get g ''main_description'' = Inr (description row)
     \<and> get g ''read_more_titles'' = Inr (read_more_titles row)
     \<and> get g ''read_more_descriptions'' = Inr (read_more_texts row)"
proof -
  from generator_total[of E "Str (prompt r)"] assms(2) have t: "inserts t = []" by auto
  from assms(3) have "truthy g" by (rule invalid_content_False_truthy)
  from new_row_total[OF this] obtain row where
    row: "new_row (category_display_name r) g = Inr row" ..
  from entry_valid[OF assms row] have "inserts (snd (processEntry E i)) = [row]"
    by (simp add: inserts_append t)
  with new_row_fields[OF row] show ?thesis by blast
qed

theorem valid_content_inserted_witness:
  "inserts (snd (processEntry (stub_env json_full) (Fin 5))) = [full_row]"
proof -
  let ?g = "Obj [(''main_title'', Str ''T''), (''main_description'', Str ''D''),
               (''read_more_titles'', Arr [Str ''a'', Str ''b'', Str ''c'']),
               (''read_more_descriptions'', Arr [Str ''x'', Str ''y'', Str ''z''])]"
  have sel: "select (stub_env json_full) (Fin 5) = (Some (stub_row (Fin 5) # []), None)"
    by (simp add: stub_select)
  have g: "processDataWithAI (stub_env json_full) (Str (prompt (stub_row (Fin 5))))
      = (Inr ?g, [Post ''Q A Cat''])"
    by (simp add: stub_prompt stub_generator_full)
  have v: "invalid_content ?g = Inr False" by (simp add: invalid_content_def bindE_def)
  from valid_content_inserted[OF sel g v] obtain row where
    row: "inserts (snd (processEntry (stub_env json_full) (Fin 5))) = [row]"
      "ins_category_display_name row = category_display_name (stub_row (Fin 5))"
      "get ?g ''main_title'' = Inr (title row)"
      "get ?g ''main_description'' = Inr (description row)"
      "get ?g ''read_more_titles'' = Inr (read_more_titles row)"
      "get ?g ''read_more_descriptions'' = Inr (read_more_texts row)"
    by blast
  then have "row = full_row" by (simp add: full_row_def stub_row_def)
  with row(1) show ?thesis by simp
qed

text \<open>
  C4. When the generated content is \<^verbatim>\<open>null\<close>, or has no main_title, or has no
  main_description, the identifier causes no insert, the skip is logged, and the loop
  goes on with the remaining identifiers.
\<close>

theorem invalid_content_skipped:
  assumes "select E i = (Some (r # rs), None)"
    and "processDataWithAI E (Str (prompt r)) = (Inr g, t)"
    and "g = Null \<or> get g ''main_title'' = Inr Undefined \<or> get g ''main_description'' = Inr Undefined"
  shows "processEntry E i =
      (Inr (), [Query i, Log (ProcessingEntry i)] @ t @ [Log (NoValidContent i)])
    \<and> inserts (snd (processEntry E i)) = []
    \<and> processEntries E (i # rest) =
        (Inr (), snd (processEntry E i) @ snd (processEntries E rest))"
proof -
  from generator_total[of E "Str (prompt r)"] assms(2) have t: "inserts t = []" by auto
  have inv: "invalid_content g = Inr True"
  proof (cases "truthy g")
    case False
    then show ?thesis by (simp add: invalid_content_def)
  next
    case True
    from get_truthy[OF True, of "''main_title''"] get_truthy[OF True, of "''main_description''"]
    show ?thesis using True assms(3) by (auto simp: invalid_content_def bindE_def)
  qed
  from entry_invalid[OF assms(1,2) inv]
  have e: "processEntry E i = (Inr (), [Query i, Log (ProcessingEntry i)] @ t @ [Log (NoValidContent i)])" .
  then have "inserts (snd (processEntry E i)) = []" by (simp add: inserts_append t)
  moreover have "processEntries E (i # rest) =
        (Inr (), snd (processEntry E i) @ snd (processEntries E rest))"
    by (simp add: entries_concat del: processEntries.simps)
  ultimately show ?thesis using e by blast
qed

theorem invalid_content_skipped_witness:
  "processEntry (stub_env json_untitled) (Fin 5) =
      (Inr (), [Query (Fin 5), Log (ProcessingEntry (Fin 5)), Post ''Q A Cat'',
                Log (NoValidContent (Fin 5))])
   \<and> inserts (snd (processEntry (stub_env json_untitled) (Fin 5))) = []
   \<and> processEntries (stub_env json_untitled) [Fin 5, Fin 2] =
        (Inr (), [Query (Fin 5), Log (ProcessingEntry (Fin 5)), Post ''Q A Cat'',
                  Log (NoValidContent (Fin 5)), Query (Fin 2), Log (ErrorFetching (Fin 2) ''timeout'')])"
proof -
  let ?E = "stub_env json_untitled"
  let ?g = "Obj [(''main_title'', Str ''T'')]"
  have sel: "select ?E (Fin 5) = (Some (stub_row (Fin 5) # []), None)"
    by (simp add: stub_select)
  have ne: "json_untitled \<noteq> []" by (simp add: json_untitled_def)
  have g: "processDataWithAI ?E (Str (prompt (stub_row (Fin 5)))) = (Inr ?g, [Post ''Q A Cat''])"
    by (simp add: stub_prompt stub_generator[OF ne] json_untitled_strip stub_parse_simps)
  have m: "?g = Null \<or> get ?g ''main_title'' = Inr Undefined \<or> get ?g ''main_description'' = Inr Undefined"
    by simp
  have r: "snd (processEntries ?E [Fin 2]) = [Query (Fin 2), Log (ErrorFetching (Fin 2) ''timeout'')]"
    by (simp add: entry_fetch_error[OF stub_select(2)] bind_def ret_def)
  from invalid_content_skipped[OF sel g m, of "[Fin 2]"] show ?thesis
    by (simp add: r del: processEntries.simps)
qed



text \<open>
  C6. The specification has every range whose two tokens are numeric, with min at most
  max, give the sequence min, min + 1, ..., max. The identifiers are doubles: above
  \<open>2 ^ 53\<close> the sum \<^verbatim>\<open>min + i\<close> is rounded, so the range from \<open>2 ^ 53\<close> to \<open>2 ^ 53 + 2\<close>
  repeats \<open>2 ^ 53\<close> and never reaches \<open>2 ^ 53 + 1\<close>. Besides, a range of \<open>2 ^ 32\<close>
  identifiers ends the program with a \<^verbatim>\<open>RangeError\<close> on every engine, and a range from
  1.5 to 3 stops at 2.5.
\<close>

theorem range_form_counterexample:
  "idList stub_max_length ''9007199254740992-9007199254740994''
     = Inr [Fin 9007199254740992, Fin 9007199254740992, Fin 9007199254740994]
   \<and> idList stub_max_length ''9007199254740992-9007199254740994''
     \<noteq> Inr [Fin 9007199254740992, Fin 9007199254740993, Fin 9007199254740994]
   \<and> idList stub_max_length ''0-4294967295'' = Inl UncaughtRangeError
   \<and> idList stub_max_length ''1.5-3'' = Inr [Fin (3 / 2), Fin (5 / 2)]"
  by (simp add: range_above_2_53 range_of_2_32 range_of_fractions stub_max_length_def)

text \<open>
  C6, as the program has it. When the two tokens are converted by \<^verbatim>\<open>Number\<close> to integers
  min and max with min at most max, both at most \<open>2 ^ 53\<close> in absolute value, and the range
  has no more identifiers than the longest array of the engine (nor than \<open>2 ^ 32 - 1\<close>),
  the list is min, min + 1, ..., max; so \<^verbatim>\<open>10-12\<close> gives 10, 11, 12.
\<close>

theorem range_form:
  assumes "CHR ''-'' \<notin> set a" "CHR ''-'' \<notin> set b"
    and "Number a = Fin (of_int m)" "Number b = Fin (of_int n)"
    and "m \<le> n" "\<bar>m\<bar> \<le> 2 ^ 53" "\<bar>n\<bar> \<le> 2 ^ 53"
    and "n - m + 1 \<le> 2 ^ 32 - 1" "n - m + 1 \<le> int L"
  shows "idList L (a @ ''-'' @ b) = Inr (map (\<lambda>k. Fin (of_int k)) [m .. n])"
proof -
  have sp: "split CHR ''-'' (a @ CHR ''-'' # b) = [a, b]"
    using assms(1,2) by (simp add: split_append split_no_sep)
  have d1: "dsub (Fin (of_int n)) (Fin (of_int m)) = Fin (of_int (n - m))"
    using dadd_int[of n "- m"] assms by (simp add: dsub_def)
  have d2: "dadd (Fin (of_int (n - m))) (Fin 1) = Fin (of_int (n - m + 1))"
    using dadd_int[of "n - m" 1] assms by simp
  have len: "to_length (Fin (of_int (n - m + 1))) = n - m + 1"
    using assms by simp
  have el: "map (\<lambda>i. dadd (Fin (of_int m)) (Fin (of_int i))) [0 .. n - m]
      = map (\<lambda>i. Fin (of_int (m + i))) [0 .. n - m]"
  proof (rule map_cong[OF refl])
    fix i assume "i \<in> set [0 .. n - m]"
    then have "\<bar>m + i\<bar> \<le> 2 ^ 53" using assms by auto
    then show "dadd (Fin (of_int m)) (Fin (of_int i)) = Fin (of_int (m + i))" by (rule dadd_int)
  qed
  have "map (\<lambda>i. Fin (of_int (m + i))) [0 .. n - m]
      = map (\<lambda>k. Fin (of_int k)) (map (\<lambda>i. m + i) [0 .. n - m])" by simp
  also have "\<dots> = map (\<lambda>k. Fin (of_int k)) [m .. n]" by (simp only: upto_shift) simp
  finally have el2: "map (\<lambda>i. Fin (of_int (m + i))) [0 .. n - m] = map (\<lambda>k. Fin (of_int k)) [m .. n]" .
  have "idList L (a @ ''-'' @ b)
      = array_from L (dadd (dsub (Number b) (Number a)) (Fin 1)) (\<lambda>i. dadd (Number a) i)"
    by (simp add: idList_def sp)
  also have "\<dots> = array_from L (Fin (of_int (n - m + 1))) (\<lambda>i. dadd (Fin (of_int m)) i)"
    by (simp only: assms(3,4) d1 d2)
  also have "\<dots> = Inr (map (\<lambda>i. dadd (Fin (of_int m)) (Fin (of_int i))) [0 .. n - m])"
    unfolding array_from_def len using assms(8,9) by (simp add: Let_def)
  finally show ?thesis by (simp only: el el2)
qed

theorem range_form_witness:
  "idList stub_max_length ''10-12'' = Inr [Fin 10, Fin 11, Fin 12]
   \<and> idList stub_max_length ''0x10-0x12'' = Inr [Fin 16, Fin 17, Fin 18]"
proof -
  have "idList stub_max_length ''10-12'' = Inr [Fin 10, Fin 11, Fin 12]"
    using range_form[of "''10''" "''12''" 10 12 stub_max_length]
    by (simp add: Number_digits_exact is_digit_iff radix_value_def digit_of_def upto_rec1
        stub_max_length_def)
  moreover have "idList stub_max_length ''0x10-0x12'' = Inr [Fin 16, Fin 17, Fin 18]"
    using range_form[of "''0x10''" "''0x12''" 16 18 stub_max_length]
    by (simp add: Number_def trim_def is_ws_def non_decimal_def is_digit_in_def digit_of_def
        radix_value_def round_double_numeral upto_rec1 stub_max_length_def)
  ultimately show ?thesis ..
qed

text \<open>
  C7. The specification has every token of the list form parsed as an integer. The
  tokens are converted by \<^verbatim>\<open>Number\<close>: a decimal integer above \<open>2 ^ 53\<close> is rounded to a
  double, a token with a fraction keeps it, and a token that is no number gives \<^verbatim>\<open>NaN\<close>.
\<close>

theorem list_form_counterexample:
  "idList stub_max_length ''9007199254740993,1.5,abc''
     = Inr [Fin 9007199254740992, Fin (3 / 2), NaN]
   \<and> \<not> is_integer (Fin (3 / 2)) \<and> \<not> is_integer NaN"
  by (simp add: list_of_odd_tokens floor_rat_numeral)

text \<open>
  C7, as the program has it. The arguments of the list form (a comma and no \<^verbatim>\<open>-\<close>) are
  the lists of two or more tokens without \<^verbatim>\<open>,\<close> and \<^verbatim>\<open>-\<close>, joined by commas. For such
  an argument the identifiers are the tokens converted by \<^verbatim>\<open>Number\<close>, one for each token,
  in the order of the tokens and with their duplicates. A token of decimal digits that
  denotes at most \<open>2 ^ 53\<close> gives that integer. So \<^verbatim>\<open>5,7,9\<close> gives 5, 7, 9.
\<close>

theorem list_form:
  "(2 \<le> length ts \<and> (\<forall>t \<in> set ts. CHR '','' \<notin> set t \<and> CHR ''-'' \<notin> set t)
      \<longrightarrow> idList L (join CHR '','' ts) = Inr (map Number ts))
   \<and> (CHR '','' \<in> set args \<and> CHR ''-'' \<notin> set args
      \<longrightarrow> (\<exists>ts. args = join CHR '','' ts \<and> 2 \<le> length ts
             \<and> (\<forall>t \<in> set ts. CHR '','' \<notin> set t \<and> CHR ''-'' \<notin> set t)))
   \<and> (tok \<noteq> [] \<and> list_all is_digit tok \<and> dec tok \<le> 2 ^ 53
      \<longrightarrow> Number tok = Fin (of_int (dec tok)))"
proof (intro conjI impI)
  assume a: "2 \<le> length ts \<and> (\<forall>t \<in> set ts. CHR '','' \<notin> set t \<and> CHR ''-'' \<notin> set t)"
  then have ne: "ts \<noteq> []" by auto
  have comma: "CHR '','' \<in> set (join CHR '','' ts)" using a by (simp add: sep_in_join)
  have dash: "CHR ''-'' \<notin> set (join CHR '','' ts)"
    using set_join[of "CHR '',''" ts] a by auto
  have "split CHR '','' (join CHR '','' ts) = ts" using ne a by (simp add: split_join)
  then show "idList L (join CHR '','' ts) = Inr (map Number ts)"
    using comma dash by (simp add: idList_def)
next
  assume a: "CHR '','' \<in> set args \<and> CHR ''-'' \<notin> set args"
  let ?ts = "split CHR '','' args"
  from a split_two[of "CHR '',''" args] have "2 \<le> length ?ts" by auto
  moreover have "\<forall>t \<in> set ?ts. CHR '','' \<notin> set t \<and> CHR ''-'' \<notin> set t"
    using split_tokens[of _ "CHR '',''" args] a by blast
  moreover have "args = join CHR '','' ?ts" by (simp add: join_split)
  ultimately show "\<exists>ts. args = join CHR '','' ts \<and> 2 \<le> length ts
             \<and> (\<forall>t \<in> set ts. CHR '','' \<notin> set t \<and> CHR ''-'' \<notin> set t)" by blast
next
  assume "tok \<noteq> [] \<and> list_all is_digit tok \<and> dec tok \<le> 2 ^ 53"
  then show "Number tok = Fin (of_int (dec tok))" by (simp add: Number_digits_exact)
qed

theorem list_form_witness:
  "idList stub_max_length ''5,7,9'' = Inr [Fin 5, Fin 7, Fin 9]
   \<and> idList stub_max_length ''9,7,7'' = Inr [Fin 9, Fin 7, Fin 7]"
proof -
  have n: "Number ''5'' = Fin 5" "Number ''7'' = Fin 7" "Number ''9'' = Fin 9"
    using list_form[where tok = "''5''"] list_form[where tok = "''7''"]
      list_form[where tok = "''9''"]
    by (simp_all add: is_digit_iff radix_value_def digit_of_def)
  from list_form[where ts = "[''5'', ''7'', ''9'']" and L = stub_max_length]
    list_form[where ts = "[''9'', ''7'', ''7'']" and L = stub_max_length] n
  show ?thesis by simp
qed

text \<open>
  C8. For the empty string and for every input that is not a string the generator
  returns \<^verbatim>\<open>null\<close> and posts no request. For every other string it posts exactly one
  request, whose user message is the first 1000 characters of the input.
\<close>

theorem invalid_input_makes_no_request:
  "(text = Str [] \<or> (\<forall>s. text \<noteq> Str s) \<longrightarrow>
      processDataWithAI E text = (Inr Null, [Log (InvalidInputText text)])
      \<and> posts (snd (processDataWithAI E text)) = [])
   \<and> (s \<noteq> [] \<longrightarrow> posts (snd (processDataWithAI E (Str s))) = [take 1000 s])"
proof (intro conjI impI)
  assume a: "text = Str [] \<or> (\<forall>s. text \<noteq> Str s)"
  then have "\<not> truthy text \<or> typeof text \<noteq> ''string''" by (cases "text") auto
  then show "processDataWithAI E text = (Inr Null, [Log (InvalidInputText text)])"
    by (rule generator_invalid_input)
  then show "posts (snd (processDataWithAI E text)) = []" by simp
next
  assume "s \<noteq> []"
  then show "posts (snd (processDataWithAI E (Str s))) = [take 1000 s]" by (rule generator_posts)
qed

theorem invalid_input_makes_no_request_witness:
  "processDataWithAI (stub_env json_full) (Num (Fin 3)) = (Inr Null, [Log (InvalidInputText (Num (Fin 3)))])
   \<and> posts (snd (processDataWithAI (stub_env json_full) (Str []))) = []
   \<and> posts (snd (processDataWithAI (stub_env json_full) (Str (replicate 1500 CHR ''a''))))
       = [replicate 1000 CHR ''a'']"
  using invalid_input_makes_no_request[of "Num (Fin 3)" "stub_env json_full" "replicate 1500 CHR ''a''"]
    invalid_input_makes_no_request[of "Str []" "stub_env json_full" "[]"]
  by simp

text \<open>
  C9. Lines 88 to 98 give the same result, value and log, for a completion and for the
  same completion between code fences, with or without white space (a line break) after
  the opening and before the closing fence. When the completion holds no backquote, that
  result is the parser's on the trimmed completion.
\<close>

theorem fenced_completion_parses_alike:
  assumes "list_all is_ws w1" "list_all is_ws w2"
  shows "strip_and_parse E (Str (''```json'' @ w1 @ b @ w2 @ ''```'')) = strip_and_parse E (Str b)
    \<and> (CHR 0x60 \<notin> set b \<longrightarrow>
         strip_and_parse E (Str (''```json'' @ w1 @ b @ w2 @ ''```'')) =
           (case JSON_parse E (trim b) of
              Some v \<Rightarrow> (Inr v, [])
            | None \<Rightarrow> (Inr Null, [Log JsonParseError, Log (RawJsonString (trim b))])))"
proof (intro conjI impI)
  show "strip_and_parse E (Str (''```json'' @ w1 @ b @ w2 @ ''```'')) = strip_and_parse E (Str b)"
    unfolding strip_and_parse_Str strip_fenced[OF assms] ..
next
  assume "CHR 0x60 \<notin> set b"
  then have s: "trim (remove_fences (trim b)) = trim b" by (rule strip_no_tick)
  show "strip_and_parse E (Str (''```json'' @ w1 @ b @ w2 @ ''```'')) =
           (case JSON_parse E (trim b) of
              Some v \<Rightarrow> (Inr v, [])
            | None \<Rightarrow> (Inr Null, [Log JsonParseError, Log (RawJsonString (trim b))]))"
    unfolding strip_and_parse_Str strip_fenced[OF assms] s ..
qed

theorem fenced_completion_parses_alike_witness:
  "strip_and_parse (stub_env []) (Str (''```json'' @ [CHR 0x0A] @ json_full @ [CHR 0x0A] @ ''```''))
     = (Inr (Obj [(''main_title'', Str ''T''), (''main_description'', Str ''D''),
                   (''read_more_titles'', Arr [Str ''a'', Str ''b'', Str ''c'']),
                   (''read_more_descriptions'', Arr [Str ''x'', Str ''y'', Str ''z''])]), [])
   \<and> strip_and_parse (stub_env []) (Str (''```json'' @ json_full @ ''```''))
     = strip_and_parse (stub_env []) (Str json_full)"
proof -
  have w: "list_all is_ws [CHR 0x0A]" "list_all is_ws []" by (simp_all add: is_ws_def)
  have p: "strip_and_parse (stub_env []) (Str json_full)
     = (Inr (Obj [(''main_title'', Str ''T''), (''main_description'', Str ''D''),
                   (''read_more_titles'', Arr [Str ''a'', Str ''b'', Str ''c'']),
                   (''read_more_descriptions'', Arr [Str ''x'', Str ''y'', Str ''z''])]), [])"
    by (simp add: strip_and_parse_Str json_full_strip stub_env_def stub_parse_def)
  from fenced_completion_parses_alike[OF w(1) w(1), of "stub_env []" json_full]
    fenced_completion_parses_alike[OF w(2) w(2), of "stub_env []" json_full] p
  show ?thesis by simp
qed

text \<open>
  C10. The check of line 132 reads main_title and main_description only. For every
  generated object whose main_title and main_description are non-empty strings the row is
  inserted, whatever read_more_titles and read_more_descriptions are: the row takes them as
  they are, \<^verbatim>\<open>undefined\<close> when absent.
\<close>

theorem read_more_fields_not_checked:
  assumes "select E i = (Some (r # rs), None)"
    and "processDataWithAI E (Str (prompt r)) = (Inr (Obj kvs), t)"
    and "map_of kvs ''main_title'' = Some (Str a)" "a \<noteq> []"
    and "map_of kvs ''main_description'' = Some (Str d)" "d \<noteq> []"
  shows "invalid_content (Obj kvs) = Inr False
    \<and> inserts (snd (processEntry E i)) =
        [\<lparr>ins_category_display_name = category_display_name r, title = Str a, description = Str d,
          read_more_titles = (case map_of kvs ''read_more_titles'' of Some v \<Rightarrow> v | None \<Rightarrow> Undefined),
          read_more_texts =
            (case map_of kvs ''read_more_descriptions'' of Some v \<Rightarrow> v | None \<Rightarrow> Undefined)\<rparr>]"
proof -
  from generator_total[of E "Str (prompt r)"] assms(2) have t: "inserts t = []" by auto
  have v: "invalid_content (Obj kvs) = Inr False"
    using assms(3-6) by (simp add: invalid_content_def bindE_def)
  have row: "new_row (category_display_name r) (Obj kvs) =
      Inr \<lparr>ins_category_display_name = category_display_name r, title = Str a, description = Str d,
          read_more_titles = (case map_of kvs ''read_more_titles'' of Some v \<Rightarrow> v | None \<Rightarrow> Undefined),
          read_more_texts =
            (case map_of kvs ''read_more_descriptions'' of Some v \<Rightarrow> v | None \<Rightarrow> Undefined)\<rparr>"
    using assms(3,5) by (simp add: new_row_def bindE_def)
  from entry_valid[OF assms(1,2) v row] v show ?thesis by (simp add: inserts_append t)
qed

theorem read_more_fields_not_checked_witness:
  "inserts (snd (processEntry (stub_env json_partial) (Fin 5))) =
     [\<lparr>ins_category_display_name = Some ''Cat'', title = Str ''T'', description = Str ''D'',
       read_more_titles = Undefined, read_more_texts = Num (Fin 5)\<rparr>]"
proof -
  let ?E = "stub_env json_partial"
  let ?kvs = "[(''main_title'', Str ''T''), (''main_description'', Str ''D''),
                   (''read_more_descriptions'', Num (Fin 5))]"
  have sel: "select ?E (Fin 5) = (Some (stub_row (Fin 5) # []), None)"
    by (simp add: stub_select)
  have ne: "json_partial \<noteq> []" by (simp add: json_partial_def)
  have g: "processDataWithAI ?E (Str (prompt (stub_row (Fin 5)))) = (Inr (Obj ?kvs), [Post ''Q A Cat''])"
    by (simp add: stub_prompt stub_generator[OF ne] json_partial_strip stub_parse_simps)
  from read_more_fields_not_checked[OF sel g, of "''T''" "''D''"] show ?thesis
    by (simp add: stub_row_def)
qed

end
